theory Spec2Isabelle
  imports Main
begin

section \<open>fastroute: a shallow embedding of router.go\<close>

text \<open>
  Go strings are byte sequences and are modelled as \<open>string\<close> (a \<open>char list\<close>).
  A panic of the Go code is a value \<open>Inl e\<close> of a sum type; a function that cannot
  panic returns its result directly.
\<close>

subsection \<open>The parts of package strings that router.go calls\<close>

text \<open>\<^verbatim>\<open>strings.TrimLeft(s, "/")\<close>: all leading separators removed.\<close>

definition TrimLeft :: "string \<Rightarrow> char \<Rightarrow> string" where
  "TrimLeft s c = dropWhile (\<lambda>x. x = c) s"

text \<open>\<^verbatim>\<open>strings.Trim(s, "/")\<close>: leading and trailing separators removed.\<close>

definition Trim :: "string \<Rightarrow> char \<Rightarrow> string" where
  "Trim s c = rev (dropWhile (\<lambda>x. x = c) (rev (dropWhile (\<lambda>x. x = c) s)))"

text \<open>
  \<^verbatim>\<open>strings.IndexAny(s, chars)\<close>: the index of the first byte of \<open>s\<close> that is one of
  \<open>chars\<close>; Go's \<open>-1\<close> is \<open>None\<close>.
\<close>

fun IndexAny :: "string \<Rightarrow> string \<Rightarrow> nat option" where
  "IndexAny [] chars = None"
| "IndexAny (x # s) chars =
     (if x \<in> set chars then Some 0 else map_option Suc (IndexAny s chars))"

text \<open>
  \<^verbatim>\<open>strings.Split(s, "/")\<close>: the pieces between separators; the empty string splits
  into one empty piece.
\<close>

fun Split :: "string \<Rightarrow> char \<Rightarrow> string list" where
  "Split [] sep = [[]]"
| "Split (x # s) sep =
     (if x = sep then [] # Split s sep
      else (case Split s sep of
              [] \<Rightarrow> [[x]]
            | piece # pieces \<Rightarrow> (x # piece) # pieces))"

text \<open>\<^verbatim>\<open>strings.Count(s, ":")\<close> for a one-byte separator.\<close>

definition Count :: "string \<Rightarrow> char \<Rightarrow> nat" where
  "Count s c = length (filter (\<lambda>x. x = c) s)"

subsection \<open>Params and the segment matcher\<close>

text \<open>\<^verbatim>\<open>type Params []struct{ Key, Value string }\<close>\<close>

type_synonym Params = "(string \<times> string) list"

text \<open>\<^verbatim>\<open>func (ps Params) ByName(name string) string\<close>\<close>

fun ByName :: "Params \<Rightarrow> string \<Rightarrow> string" where
  "ByName [] name = []"
| "ByName ((k, v) # ps) name = (if k = name then v else ByName ps name)"

text \<open>The run-time panics of the matcher and the registration-time panics of Route.\<close>

datatype error =
    IndexOutOfRange
  | SliceBoundsOutOfRange
  | NotAHandler
  | MustFollowSlash
  | MustBeNamed
  | MatchAllNotLast
  | OneParamPerSegment

text \<open>\<^verbatim>\<open>func caseSensitiveCompare(s1, s2 string) bool\<close>\<close>

definition caseSensitiveCompare :: "string \<Rightarrow> string \<Rightarrow> bool" where
  "caseSensitiveCompare s1 s2 = (s1 = s2)"

text \<open>
  The inner loop of a named segment:
  \<^verbatim>\<open>for end < lu && url[end] != '/' { end++ }\<close>
\<close>

function scan_end :: "string \<Rightarrow> nat \<Rightarrow> nat" where
  "scan_end url e =
     (if e < length url \<and> url ! e \<noteq> CHR ''/'' then scan_end url (Suc e) else e)"
  by pat_completeness auto
termination
  by (relation "measure (\<lambda>(url, e). length url - e)") auto

declare scan_end.simps [simp del]

text \<open>
  \<^verbatim>\<open>func match(segments []string, url string, ps *Params, ts bool) bool\<close>.
  The comparison function is the package variable \<open>compareFunc\<close>, passed as \<open>cmp\<close>.
  \<open>ps\<close> is written through a pointer, so the model returns it with the result, also
  when the result is false. \<open>cap\<close> is the capacity of the slice behind \<open>ps\<close>:
  \<^verbatim>\<open>(*ps)[:n+1]\<close> panics beyond it, and \<^verbatim>\<open>seg[1]\<close> panics on a one-byte segment.
\<close>

fun match ::
  "(string \<Rightarrow> string \<Rightarrow> bool) \<Rightarrow> string list \<Rightarrow> string \<Rightarrow> Params \<Rightarrow> nat \<Rightarrow> bool
    \<Rightarrow> error + (bool \<times> Params)" where
  "match cmp [] url ps cap ts =
     Inr ((\<not> ts \<and> url = []) \<or> (ts \<and> url = ''/''), ps)"
| "match cmp (seg # segments) url ps cap ts =
     (let lu = length url in
      if lu = 0 then Inr (False, ps)
      else if length seg \<le> 1 then Inl IndexOutOfRange
      else if seg ! 1 = CHR '':'' then
        (let n = length ps in
         if cap < n + 1 then Inl SliceBoundsOutOfRange
         else
           (let end = scan_end url 1 in
            match cmp segments (drop end url)
              (ps @ [(drop 2 seg, take (end - 1) (drop 1 url))]) cap ts))
      else if seg ! 1 = CHR ''*'' then
        (let n = length ps in
         if cap < n + 1 then Inl SliceBoundsOutOfRange
         else Inr (True, ps @ [(drop 2 seg, url)]))
      else if lu < length seg then Inr (False, ps)
      else if cmp (take (length seg) url) seg then
        match cmp segments (drop (length seg) url) ps cap ts
      else Inr (False, ps))"

subsection \<open>Carriers, pools and requests\<close>

text \<open>
  \<^verbatim>\<open>req.Body\<close> is an interface value of type io.ReadCloser: nil, a stream of the
  host (named by a number), or a pointer to a \<open>parameters\<close> struct (its address in
  the store).
\<close>

datatype body = NoBody | Stream nat | Carrier nat

text \<open>
  \<^verbatim>\<open>type parameters struct { io.ReadCloser; params Params; pattern string; pool *sync.Pool }\<close>.
  \<open>params_cap\<close> is the capacity of the \<open>params\<close> slice; \<open>pool\<close> is the pool's
  identity, \<open>None\<close> for the nil pointer.
\<close>

record parameters =
  ReadCloser :: body
  params :: Params
  params_cap :: nat
  pattern :: string
  pool :: "nat option"

text \<open>
  A \<^verbatim>\<open>sync.Pool\<close> as a free list of carrier addresses: Put pushes, Get pops or,
  on an empty list, calls New. The runtime may also drop idle items when it collects
  garbage and chooses which idle item Get hands out; the model keeps every item and
  hands out the one Put last. \<open>New_num\<close> and \<open>New_pattern\<close> are the variables
  \<open>num\<close> and \<open>p\<close> that the closure \<^verbatim>\<open>pool.New\<close> of Route captures.
\<close>

record sync_Pool =
  idle :: "nat list"
  New_num :: nat
  New_pattern :: string

text \<open>
  The store: the \<open>parameters\<close> structs allocated so far, by address, the pools
  created so far, by identity, and the package variable \<open>compareFunc\<close>.
\<close>

record world =
  heap :: "nat \<Rightarrow> parameters"
  next_addr :: nat
  pools :: "nat \<Rightarrow> sync_Pool"
  next_pool :: nat
  compareFunc :: "string \<Rightarrow> string \<Rightarrow> bool"

text \<open>The two fields of \<^verbatim>\<open>*http.Request\<close> that router.go reads or writes.\<close>

record request =
  URL_Path :: string
  Body :: body

text \<open>\<^verbatim>\<open>var emptyParams = make(Params, 0, 0)\<close>\<close>

definition emptyParams :: Params where
  "emptyParams = []"

text \<open>\<^verbatim>\<open>pool.Put(p)\<close>\<close>

definition pool_Put :: "nat \<Rightarrow> nat \<Rightarrow> world \<Rightarrow> world" where
  "pool_Put k a w =
     w\<lparr>pools := (pools w)(k := (pools w k)\<lparr>idle := a # idle (pools w k)\<rparr>)\<rparr>"

text \<open>
  \<^verbatim>\<open>pool.Get()\<close>, with
  \<^verbatim>\<open>pool.New = func() interface{} { return &parameters{params: make(Params, 0, num), pool: &pool, pattern: p} }\<close>
\<close>

definition pool_Get :: "nat \<Rightarrow> world \<Rightarrow> nat \<times> world" where
  "pool_Get k w =
     (case idle (pools w k) of
        [] \<Rightarrow>
          (let a = next_addr w in
           (a, w\<lparr>heap := (heap w)(a :=
                     \<lparr>ReadCloser = NoBody, params = [],
                      params_cap = New_num (pools w k),
                      pattern = New_pattern (pools w k), pool = Some k\<rparr>),
                  next_addr := Suc a\<rparr>))
      | a # rest \<Rightarrow> (a, w\<lparr>pools := (pools w)(k := (pools w k)\<lparr>idle := rest\<rparr>)\<rparr>))"

text \<open>\<^verbatim>\<open>func (p *parameters) wrap(req *http.Request)\<close>\<close>

definition wrap :: "nat \<Rightarrow> world \<times> request \<Rightarrow> world \<times> request" where
  "wrap a s =
     (case s of (w, req) \<Rightarrow>
        (w\<lparr>heap := (heap w)(a := (heap w a)\<lparr>ReadCloser := Body req\<rparr>)\<rparr>,
         req\<lparr>Body := Carrier a\<rparr>))"

text \<open>\<^verbatim>\<open>func (p *parameters) reset(req *http.Request)\<close>\<close>

definition reset :: "nat \<Rightarrow> world \<times> request \<Rightarrow> world \<times> request" where
  "reset a s =
     (case s of (w, req) \<Rightarrow>
        (let w' =
           (case pool (heap w a) of
              None \<Rightarrow> w
            | Some k \<Rightarrow>
                pool_Put k a (w\<lparr>heap := (heap w)(a := (heap w a)\<lparr>params := []\<rparr>)\<rparr>))
         in (w', req\<lparr>Body := ReadCloser (heap w' a)\<rparr>)))"

text \<open>\<^verbatim>\<open>func parameterized(req *http.Request) *parameters\<close>\<close>

definition parameterized :: "request \<Rightarrow> nat option" where
  "parameterized req = (case Body req of Carrier a \<Rightarrow> Some a | _ \<Rightarrow> None)"

text \<open>\<^verbatim>\<open>func Parameters(req *http.Request) Params\<close>\<close>

definition Parameters :: "world \<times> request \<Rightarrow> Params" where
  "Parameters s =
     (case s of (w, req) \<Rightarrow>
        (case parameterized req of Some a \<Rightarrow> params (heap w a) | None \<Rightarrow> emptyParams))"

text \<open>\<^verbatim>\<open>func Pattern(req *http.Request) string\<close>\<close>

definition Pattern :: "world \<times> request \<Rightarrow> string" where
  "Pattern s =
     (case s of (w, req) \<Rightarrow>
        (case parameterized req of Some a \<Rightarrow> pattern (heap w a) | None \<Rightarrow> []))"

text \<open>\<^verbatim>\<open>func Recycle(req *http.Request)\<close>\<close>

definition Recycle :: "world \<times> request \<Rightarrow> world \<times> request" where
  "Recycle s =
     (case parameterized (snd s) of Some a \<Rightarrow> reset a s | None \<Rightarrow> s)"

subsection \<open>Handlers and routers\<close>

text \<open>
  An \<^verbatim>\<open>http.Handler\<close> that a router returns: a handler function of the application
  (named by a number), or the closure \<open>handle\<close> of Route around one.
\<close>

datatype handler = HandlerFunc nat | Handle handler

text \<open>
  Serving a handler. What an application's handler does to the store and the request
  is the parameter \<open>run\<close>. The closure of Route is
  \<^verbatim>\<open>h.ServeHTTP(w, r); if p := parameterized(r); p != nil { p.reset(r) }\<close>
\<close>

fun ServeHTTP ::
  "(nat \<Rightarrow> world \<times> request \<Rightarrow> world \<times> request) \<Rightarrow> handler
    \<Rightarrow> world \<times> request \<Rightarrow> world \<times> request" where
  "ServeHTTP run (HandlerFunc f) s = run f s"
| "ServeHTTP run (Handle h) s =
     (let s1 = ServeHTTP run h s in
      case parameterized (snd s1) of Some a \<Rightarrow> reset a s1 | None \<Rightarrow> s1)"

text \<open>
  \<^verbatim>\<open>type RouterFunc func(*http.Request) http.Handler\<close>: a router is a function of
  the store and the request; it returns the handler (\<open>None\<close> for nil) and what it made
  of the store and the request, or panics. \<open>Match\<close> calls the function.
\<close>

type_synonym Router = "world \<times> request \<Rightarrow> error + (handler option \<times> world \<times> request)"

text \<open>
  \<^verbatim>\<open>func (rf RouterFunc) ServeHTTP(w http.ResponseWriter, r *http.Request)\<close>;
  \<^verbatim>\<open>http.NotFound\<close> writes the response only.
\<close>

definition Router_ServeHTTP ::
  "(nat \<Rightarrow> world \<times> request \<Rightarrow> world \<times> request) \<Rightarrow> Router
    \<Rightarrow> world \<times> request \<Rightarrow> error + (world \<times> request)" where
  "Router_ServeHTTP run rf s =
     (case rf s of
        Inl e \<Rightarrow> Inl e
      | Inr (Some h, s') \<Rightarrow> Inr (ServeHTTP run h s')
      | Inr (None, s') \<Rightarrow> Inr s')"

text \<open>\<^verbatim>\<open>func New(routes ...Router) Router\<close>\<close>

fun New :: "Router list \<Rightarrow> Router" where
  "New [] s = Inr (None, s)"
| "New (router # routes) s =
     (case router s of
        Inl e \<Rightarrow> Inl e
      | Inr (found, s') \<Rightarrow>
          if found \<noteq> None then Inr (found, s') else New routes s')"

text \<open>
  The routers of a list, asked in order, all return nil: each is asked in the state the
  one before it left, and the last leaves the state on the right.
\<close>

inductive all_decline :: "Router list \<Rightarrow> world \<times> request \<Rightarrow> world \<times> request \<Rightarrow> bool" where
  none: "all_decline [] s s"
| more: "router s = Inr (None, s1) \<Longrightarrow> all_decline routes s1 s2
          \<Longrightarrow> all_decline (router # routes) s s2"

text \<open>\<^verbatim>\<open>func ComparesPathWith(router Router, cmp func(s1, s2 string) bool) Router\<close>\<close>

definition ComparesPathWith :: "Router \<Rightarrow> (string \<Rightarrow> string \<Rightarrow> bool) \<Rightarrow> Router" where
  "ComparesPathWith router cmp s =
     (case s of (w, req) \<Rightarrow>
        (case router (w\<lparr>compareFunc := cmp\<rparr>, req) of
           Inl e \<Rightarrow> Inl e
         | Inr (found, w', req') \<Rightarrow>
             Inr (found, w'\<lparr>compareFunc := caseSensitiveCompare\<rparr>, req')))"

subsection \<open>Route\<close>

text \<open>
  The \<open>interface{}\<close> argument of Route by its dynamic type, as the type switch sees
  it: an \<^verbatim>\<open>http.HandlerFunc\<close>, a plain \<^verbatim>\<open>func(http.ResponseWriter, *http.Request)\<close>,
  a value of another type that implements \<^verbatim>\<open>http.Handler\<close>, or any other value.
\<close>

datatype handler_arg = IsHandlerFunc nat | IsFunc nat | IsHandler nat | IsOther

text \<open>
  \<^verbatim>\<open>switch t := handler.(type) { case http.HandlerFunc: h = t
  case func(http.ResponseWriter, *http.Request): h = http.HandlerFunc(t)
  default: panic(...) }\<close>
\<close>

fun handler_switch :: "handler_arg \<Rightarrow> error + handler" where
  "handler_switch (IsHandlerFunc t) = Inr (HandlerFunc t)"
| "handler_switch (IsFunc t) = Inr (HandlerFunc t)"
| "handler_switch t = Inl NotAHandler"

text \<open>
  The validation loop of Route over \<open>segments[i..]\<close>, \<open>n\<close> being \<open>len(segments)\<close>;
  the first panic wins.
\<close>

fun check_segments :: "string list \<Rightarrow> nat \<Rightarrow> nat \<Rightarrow> error option" where
  "check_segments [] i n = None"
| "check_segments (seg # rest) i n =
     (case IndexAny seg '':*'' of
        None \<Rightarrow> check_segments rest (Suc i) n
      | Some pos \<Rightarrow>
          if pos \<noteq> 0 then Some MustFollowSlash
          else if length seg - 1 = pos then Some MustBeNamed
          else if seg ! 0 = CHR ''*'' \<and> i + 1 \<noteq> n then Some MatchAllNotLast
          else if IndexAny (drop 1 seg) '':*'' \<noteq> None then Some OneParamPerSegment
          else check_segments rest (Suc i) n)"

text \<open>The router that Route returns for a static path; \<open>ps\<close> is its one carrier.\<close>

definition static_route :: "string \<Rightarrow> handler \<Rightarrow> nat \<Rightarrow> Router" where
  "static_route p h ps s =
     (case s of (w, req) \<Rightarrow>
        if compareFunc w p (URL_Path req) then Inr (Some h, wrap ps (w, req))
        else Inr (None, w, req))"

text \<open>
  The router that Route returns for a path with parameters; \<open>k\<close> is its pool and
  \<open>handle\<close> the extended handler.
\<close>

definition dynamic_route :: "string list \<Rightarrow> bool \<Rightarrow> nat \<Rightarrow> handler \<Rightarrow> Router" where
  "dynamic_route segments ts k handle s =
     (case s of (w, req) \<Rightarrow>
        (case pool_Get k w of (a, w1) \<Rightarrow>
           (case match (compareFunc w1) segments (URL_Path req)
                   (params (heap w1 a)) (params_cap (heap w1 a)) ts of
              Inl e \<Rightarrow> Inl e
            | Inr (matched, ps') \<Rightarrow>
                (let w2 = w1\<lparr>heap := (heap w1)(a := (heap w1 a)\<lparr>params := ps'\<rparr>)\<rparr> in
                 if matched then Inr (Some handle, wrap a (w2, req))
                 else Inr (None, reset a (w2, req))))))"

text \<open>The first line of Route: \<^verbatim>\<open>p := "/" + strings.TrimLeft(path, "/")\<close>\<close>

definition normalize_path :: "string \<Rightarrow> string" where
  "normalize_path path = CHR ''/'' # TrimLeft path CHR ''/''"

text \<open>
  \<^verbatim>\<open>func Route(path string, handler interface{}) Router\<close>. It allocates the carrier
  of a static route or the pool of a dynamic one, so it takes and returns the store.
\<close>

definition Route :: "world \<Rightarrow> string \<Rightarrow> handler_arg \<Rightarrow> error + (Router \<times> world)" where
  "Route w path handler =
     (let p = normalize_path path in
      case handler_switch handler of
        Inl e \<Rightarrow> Inl e
      | Inr h \<Rightarrow>
          if IndexAny p '':*'' = None then
            (let ps = next_addr w in
             Inr (static_route p h ps,
                  w\<lparr>heap := (heap w)(ps :=
                       \<lparr>ReadCloser = NoBody, params = emptyParams, params_cap = 0,
                        pattern = p, pool = None\<rparr>),
                    next_addr := Suc ps\<rparr>))
          else
            (let segs = Split (Trim p CHR ''/'') CHR ''/'' in
             case check_segments segs 0 (length segs) of
               Some e \<Rightarrow> Inl e
             | None \<Rightarrow>
                 (let segments = map (\<lambda>seg. CHR ''/'' # seg) segs;
                      ts = (last p = CHR ''/'');
                      num = Count p CHR '':'' + Count p CHR ''*'';
                      k = next_pool w
                  in Inr (dynamic_route segments ts k (Handle h),
                          w\<lparr>pools := (pools w)(k :=
                               \<lparr>idle = [], New_num = num, New_pattern = p\<rparr>),
                            next_pool := Suc k\<rparr>))))"

text \<open>The store of a program that has registered nothing yet.\<close>

definition init_world :: world where
  "init_world =
     \<lparr>heap = (\<lambda>a. \<lparr>ReadCloser = NoBody, params = [], params_cap = 0,
                      pattern = [], pool = None\<rparr>),
      next_addr = 0,
      pools = (\<lambda>k. \<lparr>idle = [], New_num = 0, New_pattern = []\<rparr>),
      next_pool = 0,
      compareFunc = caseSensitiveCompare\<rparr>"

text \<open>
  The idiom of the tests: register one route in a program that has registered nothing,
  then match one request against it.
\<close>

definition Route_Match ::
  "string \<Rightarrow> handler_arg \<Rightarrow> request \<Rightarrow> error + (handler option \<times> world \<times> request)" where
  "Route_Match path handler req =
     (case Route init_world path handler of
        Inl e \<Rightarrow> Inl e
      | Inr (router, w) \<Rightarrow> router (w, req))"

subsection \<open>The pattern errors as the specification words them\<close>

text \<open>
  The segments of a pattern are the pieces of the trimmed, normalized path between
  separators, so the byte before a segment's first byte is a separator. A marker is
  misplaced when it is not the first byte of its segment, unnamed when nothing follows
  it in its segment; a segment has several markers when it holds two or more; and a
  catch-all segment comes before the end when a segment other than the last starts
  with the catch-all marker.
\<close>

definition is_marker :: "char \<Rightarrow> bool" where
  "is_marker c \<longleftrightarrow> c = CHR '':'' \<or> c = CHR ''*''"

definition misplaced_marker :: "string \<Rightarrow> bool" where
  "misplaced_marker seg \<longleftrightarrow> (\<exists>i. 0 < i \<and> i < length seg \<and> is_marker (seg ! i))"

definition unnamed_marker :: "string \<Rightarrow> bool" where
  "unnamed_marker seg \<longleftrightarrow> seg \<noteq> [] \<and> is_marker (last seg)"

definition several_markers :: "string \<Rightarrow> bool" where
  "several_markers seg \<longleftrightarrow> 2 \<le> length (filter is_marker seg)"

definition catch_all_before_end :: "string list \<Rightarrow> bool" where
  "catch_all_before_end segs \<longleftrightarrow>
     (\<exists>i. i + 1 < length segs \<and> take 1 (segs ! i) = ''*'')"

definition invalid_pattern :: "string \<Rightarrow> bool" where
  "invalid_pattern path \<longleftrightarrow>
     (let segs = Split (Trim (normalize_path path) CHR ''/'') CHR ''/'' in
      (\<exists>seg \<in> set segs. misplaced_marker seg \<or> unnamed_marker seg \<or> several_markers seg)
      \<or> catch_all_before_end segs)"

subsection \<open>Runs of the program\<close>

text \<open>
  The stores a program can reach from a store: by registering a route, by asking the
  router of a static or of a dynamic route (one whose pool exists) to match any request,
  by calling Recycle on any request, by serving any handler when the application's
  handlers leave the store and the request as they are, and by assigning
  \<open>compareFunc\<close>. The requests are arbitrary: a Body may hold any carrier, also one
  that was released before. A call that panics leaves no store to go on from.
\<close>

inductive evolves :: "world \<Rightarrow> world \<Rightarrow> bool" where
  start: "evolves w w"
| registered:
    "evolves w w1 \<Longrightarrow> Route w1 path ha = Inr (rt, w2) \<Longrightarrow> evolves w w2"
| static_matched:
    "evolves w w1 \<Longrightarrow> static_route p h ps (w1, req) = Inr (found, w2, req')
      \<Longrightarrow> evolves w w2"
| dynamic_matched:
    "evolves w w1 \<Longrightarrow> k < next_pool w1
      \<Longrightarrow> dynamic_route segments ts k h (w1, req) = Inr (found, w2, req')
      \<Longrightarrow> evolves w w2"
| recycled:
    "evolves w w1 \<Longrightarrow> Recycle (w1, req) = (w2, req') \<Longrightarrow> evolves w w2"
| served:
    "evolves w w1 \<Longrightarrow> \<forall>f s. run f s = s \<Longrightarrow> ServeHTTP run h (w1, req) = (w2, req')
      \<Longrightarrow> evolves w w2"
| compared:
    "evolves w w1 \<Longrightarrow> evolves w (w1\<lparr>compareFunc := cmp\<rparr>)"

text \<open>
  The routers this package builds: the routers of static and of dynamic routes, the
  dispatchers made of such routers and the routers that compare paths their own way.
\<close>

inductive built :: "Router \<Rightarrow> bool" where
  static: "built (static_route p h ps)"
| dynamic: "built (dynamic_route segments ts k h)"
| composite: "\<forall>router \<in> set routes. built router \<Longrightarrow> built (New routes)"
| comparing: "built router \<Longrightarrow> built (ComparesPathWith router cmp)"

text \<open>No carrier of the store has saved a carrier as a request's Body.\<close>

definition plain_saved :: "world \<Rightarrow> bool" where
  "plain_saved w \<longleftrightarrow> (\<forall>a b. ReadCloser (heap w a) \<noteq> Carrier b)"

text \<open>
  A router keeps the saved Bodies plain when, asked to match a request that carries no
  parameters in a store where no carrier has saved a carrier, it leaves such a store,
  and leaves the request without parameters when it returns nil and with a carrier as
  its Body when it returns a handler.
\<close>

definition keeps_plain :: "Router \<Rightarrow> bool" where
  "keeps_plain rt \<longleftrightarrow>
     (\<forall>w req found w' req'.
        plain_saved w \<longrightarrow> parameterized req = None \<longrightarrow>
        rt (w, req) = Inr (found, w', req') \<longrightarrow>
        plain_saved w' \<and>
        (case found of
           None \<Rightarrow> parameterized req' = None
         | Some h \<Rightarrow> \<exists>a. Body req' = Carrier a))"

text \<open>
  What every reachable store satisfies: a carrier that names a pool is allocated, the
  pool exists and the carrier has the pattern the pool gives its carriers; and the
  carriers a pool holds name that pool.
\<close>

definition wf_world :: "world \<Rightarrow> bool" where
  "wf_world w \<longleftrightarrow>
     (\<forall>a k. pool (heap w a) = Some k \<longrightarrow>
        a < next_addr w \<and> k < next_pool w \<and>
        pattern (heap w a) = New_pattern (pools w k)) \<and>
     (\<forall>k. \<forall>a \<in> set (idle (pools w k)). pool (heap w a) = Some k)"

text \<open>
  What a later store keeps of an earlier one: the carriers allocated then are still
  allocated and have the pattern and the pool they had, and the pools created then
  still exist and give their carriers the pattern they gave.
\<close>

definition keeps :: "world \<Rightarrow> world \<Rightarrow> bool" where
  "keeps w w' \<longleftrightarrow>
     next_addr w \<le> next_addr w' \<and> next_pool w \<le> next_pool w' \<and>
     (\<forall>a. a < next_addr w \<longrightarrow>
        pattern (heap w' a) = pattern (heap w a) \<and> pool (heap w' a) = pool (heap w a)) \<and>
     (\<forall>k. k < next_pool w \<longrightarrow> New_pattern (pools w' k) = New_pattern (pools w k))"

text \<open>
  A match attempt as a caller makes it: Match, and when a handler comes back the
  caller serves it or calls Recycle.
\<close>

datatype followup = Serve | CallRecycle

definition attempt ::
  "(nat \<Rightarrow> world \<times> request \<Rightarrow> world \<times> request) \<Rightarrow> Router \<Rightarrow> world
    \<Rightarrow> request \<times> followup \<Rightarrow> error + world" where
  "attempt run router w x =
     (case x of (req, todo) \<Rightarrow>
        (case router (w, req) of
           Inl e \<Rightarrow> Inl e
         | Inr (None, w', req') \<Rightarrow> Inr w'
         | Inr (Some h, s') \<Rightarrow>
             Inr (fst (case todo of
                         Serve \<Rightarrow> ServeHTTP run h s'
                       | CallRecycle \<Rightarrow> Recycle s'))))"

fun attempts ::
  "(nat \<Rightarrow> world \<times> request \<Rightarrow> world \<times> request) \<Rightarrow> Router \<Rightarrow> world
    \<Rightarrow> (request \<times> followup) list \<Rightarrow> error + world" where
  "attempts run router w [] = Inr w"
| "attempts run router w (x # xs) =
     (case attempt run router w x of
        Inl e \<Rightarrow> Inl e
      | Inr w' \<Rightarrow> attempts run router w' xs)"

section \<open>Properties\<close>

subsection \<open>The scan of a named segment\<close>

lemma scan_end_takeWhile:
  "e \<le> length url \<Longrightarrow>
   scan_end url e = e + length (takeWhile (\<lambda>x. x \<noteq> CHR ''/'') (drop e url))"
proof (induction url e rule: scan_end.induct)
  case (1 url e)
  show ?case
  proof (cases "e < length url")
    case True
    then have d: "drop e url = url ! e # drop (Suc e) url"
      by (simp add: Cons_nth_drop_Suc)
    show ?thesis
    proof (cases "url ! e = CHR ''/''")
      case True
      with d show ?thesis by (subst scan_end.simps) simp
    next
      case False
      with True 1 d show ?thesis by (subst scan_end.simps) simp
    qed
  next
    case False
    with 1 show ?thesis by (subst scan_end.simps) simp
  qed
qed

lemma scan_end_1:
  "url \<noteq> [] \<Longrightarrow> scan_end url (Suc 0) = Suc (length (takeWhile (\<lambda>x. x \<noteq> CHR ''/'') (tl url)))"
  by (cases url) (simp_all add: scan_end_takeWhile drop_Suc)

subsection \<open>One step of the segment matcher\<close>

lemma match_named:
  assumes "1 < length seg" "seg ! 1 = CHR '':''" "url \<noteq> []" "length ps < cap"
  shows "match cmp (seg # segments) url ps cap ts =
         match cmp segments (dropWhile (\<lambda>x. x \<noteq> CHR ''/'') (tl url))
           (ps @ [(drop 2 seg, takeWhile (\<lambda>x. x \<noteq> CHR ''/'') (tl url))]) cap ts"
proof -
  have "drop (Suc (length (takeWhile (\<lambda>x. x \<noteq> CHR ''/'') (tl url)))) url
        = dropWhile (\<lambda>x. x \<noteq> CHR ''/'') (tl url)"
    using assms(3) by (cases url) (simp_all add: dropWhile_eq_drop)
  moreover have "take (length (takeWhile (\<lambda>x. x \<noteq> CHR ''/'') (tl url))) (drop 1 url)
        = takeWhile (\<lambda>x. x \<noteq> CHR ''/'') (tl url)"
    using assms(3) by (cases url) (simp_all add: takeWhile_eq_take [symmetric] drop_Suc)
  ultimately show ?thesis
    using assms by (simp add: scan_end_1 Let_def)
qed

lemma match_catch_all:
  assumes "1 < length seg" "seg ! 1 = CHR ''*''" "url \<noteq> []" "length ps < cap"
  shows "match cmp (seg # segments) url ps cap ts = Inr (True, ps @ [(drop 2 seg, url)])"
  using assms by (simp add: Let_def)

lemma match_literal:
  assumes "1 < length seg" "seg ! 1 \<noteq> CHR '':''" "seg ! 1 \<noteq> CHR ''*''"
  shows "match caseSensitiveCompare (seg # segments) (seg @ rest) ps cap ts =
         match caseSensitiveCompare segments rest ps cap ts"
  using assms by (auto simp add: Let_def caseSensitiveCompare_def)

lemma match_literal_only:
  assumes "1 < length seg" "seg ! 1 \<noteq> CHR '':''" "seg ! 1 \<noteq> CHR ''*''"
      "match caseSensitiveCompare (seg # segments) url ps cap ts = Inr (True, ps')"
  shows "\<exists>rest. url = seg @ rest"
proof -
  from assms have "take (length seg) url = seg"
    by (auto simp add: Let_def caseSensitiveCompare_def split: if_splits)
  then show ?thesis by (metis append_take_drop_id)
qed

lemma match_empty_url: "match cmp (seg # segments) [] ps cap ts = Inr (False, ps)"
  by simp

subsection \<open>Registration\<close>

lemma Route_static:
  assumes "IndexAny (normalize_path path) '':*'' = None" "handler_switch ha = Inr h"
  shows "Route w path ha =
     Inr (static_route (normalize_path path) h (next_addr w),
          w\<lparr>heap := (heap w)(next_addr w :=
               \<lparr>ReadCloser = NoBody, params = emptyParams, params_cap = 0,
                pattern = normalize_path path, pool = None\<rparr>),
            next_addr := Suc (next_addr w)\<rparr>)"
  using assms by (simp add: Route_def Let_def)

lemma Route_not_a_handler:
  "handler_switch ha = Inl e \<Longrightarrow> Route w path ha = Inl e"
  by (simp add: Route_def Let_def)

lemma Route_cases:
  assumes "Route w path ha = Inr (rt, w1)"
  obtains (static) h where "handler_switch ha = Inr h"
      "IndexAny (normalize_path path) '':*'' = None"
      "rt = static_route (normalize_path path) h (next_addr w)"
      "w1 = w\<lparr>heap := (heap w)(next_addr w :=
               \<lparr>ReadCloser = NoBody, params = emptyParams, params_cap = 0,
                pattern = normalize_path path, pool = None\<rparr>),
            next_addr := Suc (next_addr w)\<rparr>"
  | (dynamic) h segs where "handler_switch ha = Inr h"
      "IndexAny (normalize_path path) '':*'' \<noteq> None"
      "segs = Split (Trim (normalize_path path) CHR ''/'') CHR ''/''"
      "check_segments segs 0 (length segs) = None"
      "rt = dynamic_route (map (\<lambda>seg. CHR ''/'' # seg) segs)
              (last (normalize_path path) = CHR ''/'') (next_pool w) (Handle h)"
      "w1 = w\<lparr>pools := (pools w)(next_pool w :=
               \<lparr>idle = [], New_num = Count (normalize_path path) CHR '':''
                   + Count (normalize_path path) CHR ''*'',
                New_pattern = normalize_path path\<rparr>),
            next_pool := Suc (next_pool w)\<rparr>"
proof (cases "handler_switch ha")
  case (Inl e)
  with assms show ?thesis by (simp add: Route_def Let_def)
next
  case (Inr h)
  show ?thesis
  proof (cases "IndexAny (normalize_path path) '':*'' = None")
    case True
    with Inr assms static show ?thesis by (simp add: Route_def Let_def)
  next
    case False
    with Inr assms dynamic [of h "Split (Trim (normalize_path path) CHR ''/'') CHR ''/''"]
    show ?thesis
      by (simp add: Route_def Let_def split: option.splits)
  qed
qed

lemma Route_a_b:
  "Route w ''/a/:b'' (IsFunc f) =
     Inr (dynamic_route [''/a'', ''/:b''] False (next_pool w) (Handle (HandlerFunc f)),
          w\<lparr>pools := (pools w)(next_pool w :=
               \<lparr>idle = [], New_num = 1, New_pattern = ''/a/:b''\<rparr>),
            next_pool := Suc (next_pool w)\<rparr>)"
  by (simp add: Route_def normalize_path_def TrimLeft_def Trim_def Count_def Let_def)

lemma IndexAny_None: "IndexAny s cs = None \<longleftrightarrow> (\<forall>c \<in> set s. c \<notin> set cs)"
  by (induction s) auto

lemma IndexAny_Some:
  "IndexAny s cs = Some pos \<Longrightarrow>
    pos < length s \<and> s ! pos \<in> set cs \<and> (\<forall>i < pos. s ! i \<notin> set cs)"
proof (induction s arbitrary: pos)
  case Nil
  then show ?case by simp
next
  case (Cons x s)
  show ?case
  proof (cases "x \<in> set cs")
    case True
    with Cons.prems show ?thesis by simp
  next
    case False
    with Cons.prems obtain q where q: "IndexAny s cs = Some q" "pos = Suc q"
      by auto
    from Cons.IH [OF q(1)] False q(2) show ?thesis
      by (auto simp add: nth_Cons split: nat.splits)
  qed
qed

lemma is_marker_set: "is_marker c \<longleftrightarrow> c \<in> set '':*''"
  by (auto simp add: is_marker_def)

text \<open>
One round of the validation loop against the wording of the pattern errors.
\<close>

lemma check_segment_ok:
  assumes "IndexAny seg '':*'' = None"
  shows "\<not> misplaced_marker seg" "\<not> unnamed_marker seg" "\<not> several_markers seg"
    "take 1 seg \<noteq> ''*''"
proof -
  from assms have no: "\<forall>c \<in> set seg. \<not> is_marker c"
    by (simp add: IndexAny_None is_marker_set)
  then show "\<not> misplaced_marker seg"
    by (auto simp add: misplaced_marker_def)
  from no show "\<not> unnamed_marker seg"
    by (auto simp add: unnamed_marker_def)
  from no have "filter is_marker seg = []"
    by (simp add: filter_empty_conv)
  then show "\<not> several_markers seg"
    by (simp add: several_markers_def)
  from no show "take 1 seg \<noteq> ''*''"
    by (cases seg) (auto simp add: is_marker_def)
qed

lemma check_segment_bad:
  "misplaced_marker seg \<or> unnamed_marker seg \<or> several_markers seg \<longleftrightarrow>
   (\<exists>pos. IndexAny seg '':*'' = Some pos \<and>
      (pos \<noteq> 0 \<or> length seg - 1 = pos \<or> IndexAny (drop 1 seg) '':*'' \<noteq> None))"
proof (cases "IndexAny seg '':*''")
  case None
  with check_segment_ok [OF None] show ?thesis by simp
next
  case (Some pos)
  note p = IndexAny_Some [OF Some]
  show ?thesis
  proof (cases "pos = 0")
    case False
    with p have "misplaced_marker seg"
      by (auto simp add: misplaced_marker_def is_marker_set)
    with Some False show ?thesis by simp
  next
    case True
    with p obtain c rest where seg: "seg = c # rest" and c: "is_marker c"
      by (cases seg) (auto simp add: is_marker_set)
    have later: "IndexAny rest '':*'' \<noteq> None \<longleftrightarrow> (\<exists>d \<in> set rest. is_marker d)"
      by (simp add: IndexAny_None is_marker_set)
    have mis: "misplaced_marker seg \<longleftrightarrow> (\<exists>d \<in> set rest. is_marker d)"
    proof
      assume "misplaced_marker seg"
      then obtain i where "0 < i" "i < length seg" "is_marker (seg ! i)"
        by (auto simp add: misplaced_marker_def)
      then have "rest ! (i - 1) \<in> set rest" "is_marker (rest ! (i - 1))"
        by (simp_all add: seg nth_Cons split: nat.splits)
      then show "\<exists>d \<in> set rest. is_marker d" by blast
    next
      assume "\<exists>d \<in> set rest. is_marker d"
      then obtain j where "j < length rest" "is_marker (rest ! j)"
        by (auto simp add: in_set_conv_nth)
      then have "0 < Suc j \<and> Suc j < length seg \<and> is_marker (seg ! Suc j)"
        by (simp add: seg)
      then show "misplaced_marker seg"
        unfolding misplaced_marker_def by blast
    qed
    have sev: "several_markers seg \<longleftrightarrow> (\<exists>d \<in> set rest. is_marker d)"
      using c by (auto simp add: several_markers_def seg filter_empty_conv
          Suc_le_eq length_greater_0_conv)
    have unn: "unnamed_marker seg \<longleftrightarrow> rest = [] \<or> (rest \<noteq> [] \<and> is_marker (last rest))"
      using c by (auto simp add: unnamed_marker_def seg)
    have "rest \<noteq> [] \<and> is_marker (last rest) \<Longrightarrow> \<exists>d \<in> set rest. is_marker d"
      using last_in_set by blast
    with mis sev unn later Some True show ?thesis
      by (auto simp add: seg)
  qed
qed

lemma check_segments_iff:
  "check_segments rest i (i + length rest) \<noteq> None \<longleftrightarrow>
     (\<exists>seg \<in> set rest. misplaced_marker seg \<or> unnamed_marker seg \<or> several_markers seg)
     \<or> catch_all_before_end rest"
proof (induction rest arbitrary: i)
  case Nil
  show ?case by (simp add: catch_all_before_end_def)
next
  case (Cons seg rest)
  have ih: "check_segments rest (Suc i) (i + length (seg # rest)) \<noteq> None \<longleftrightarrow>
     (\<exists>s \<in> set rest. misplaced_marker s \<or> unnamed_marker s \<or> several_markers s)
     \<or> catch_all_before_end rest"
    using Cons.IH [of "Suc i"] by simp
  have cab: "catch_all_before_end (seg # rest) \<longleftrightarrow>
      (take 1 seg = ''*'' \<and> rest \<noteq> []) \<or> catch_all_before_end rest"
  proof
    assume "catch_all_before_end (seg # rest)"
    then obtain j where j: "j + 1 < length (seg # rest)" "take 1 ((seg # rest) ! j) = ''*''"
      by (auto simp add: catch_all_before_end_def)
    show "(take 1 seg = ''*'' \<and> rest \<noteq> []) \<or> catch_all_before_end rest"
    proof (cases j)
      case 0
      with j show ?thesis by auto
    next
      case (Suc j')
      with j have "j' + 1 < length rest \<and> take 1 (rest ! j') = ''*''" by simp
      then show ?thesis unfolding catch_all_before_end_def by blast
    qed
  next
    assume "(take 1 seg = ''*'' \<and> rest \<noteq> []) \<or> catch_all_before_end rest"
    then show "catch_all_before_end (seg # rest)"
    proof
      assume "take 1 seg = ''*'' \<and> rest \<noteq> []"
      then have "0 + 1 < length (seg # rest) \<and> take 1 ((seg # rest) ! 0) = ''*''"
        by (cases rest) simp_all
      then show ?thesis unfolding catch_all_before_end_def by blast
    next
      assume "catch_all_before_end rest"
      then obtain j where "j + 1 < length rest" "take 1 (rest ! j) = ''*''"
        by (auto simp add: catch_all_before_end_def)
      then have "Suc j + 1 < length (seg # rest) \<and> take 1 ((seg # rest) ! Suc j) = ''*''"
        by simp
      then show ?thesis unfolding catch_all_before_end_def by blast
    qed
  qed
  show ?case
  proof (cases "IndexAny seg '':*''")
    case None
    from check_segment_ok [OF None] None ih cab show ?thesis
      by simp
  next
    case (Some pos)
    let ?bad = "misplaced_marker seg \<or> unnamed_marker seg \<or> several_markers seg"
    show ?thesis
    proof (cases ?bad)
      case True
      with check_segment_bad [of seg] Some show ?thesis
        by auto
    next
      case False
      with check_segment_bad [of seg] Some
      have ok: "pos = 0" "length seg - 1 \<noteq> pos" "IndexAny (drop 1 seg) '':*'' = None"
        by auto
      from IndexAny_Some [OF Some] ok(1) have star: "seg ! 0 = CHR ''*'' \<longleftrightarrow> take 1 seg = ''*''"
        by (cases seg) auto
      have last: "i + 1 \<noteq> i + length (seg # rest) \<longleftrightarrow> rest \<noteq> []"
        by simp
      from Some ok star last False ih cab show ?thesis
        by (auto simp del: One_nat_def)
    qed
  qed
qed

lemma Split_bytes: "seg \<in> set (Split s sep) \<Longrightarrow> set seg \<subseteq> set s"
proof (induction s arbitrary: seg)
  case Nil
  then show ?case by simp
next
  case (Cons x s)
  show ?case
  proof (cases "x = sep")
    case True
    with Cons.prems have "seg = [] \<or> seg \<in> set (Split s sep)" by simp
    with Cons.IH show ?thesis by auto
  next
    case False
    show ?thesis
    proof (cases "Split s sep")
      case Nil
      with False Cons.prems show ?thesis by simp
    next
      case (Cons piece pieces)
      with False Cons.prems have "seg = x # piece \<or> seg \<in> set pieces" by simp
      moreover have "set piece \<subseteq> set s" using Cons.IH [of piece] Cons by simp
      moreover have "t \<in> set pieces \<Longrightarrow> set t \<subseteq> set s" for t
        using Cons.IH [of t] Cons by simp
      ultimately show ?thesis by auto
    qed
  qed
qed

text \<open>
  Route panics exactly when the type switch rejects the handler value or the pattern
  has one of the four errors; a path without markers has none of them.
\<close>

lemma Route_fails_iff:
  "(\<exists>e. Route w path ha = Inl e) \<longleftrightarrow> (\<exists>e. handler_switch ha = Inl e) \<or>
     ((\<exists>h. handler_switch ha = Inr h) \<and> invalid_pattern path)"
proof (cases "handler_switch ha")
  case (Inl e)
  then show ?thesis by (simp add: Route_def Let_def)
next
  case (Inr h)
  let ?p = "normalize_path path"
  let ?segs = "Split (Trim ?p CHR ''/'') CHR ''/''"
  have iff: "check_segments ?segs 0 (length ?segs) \<noteq> None \<longleftrightarrow> invalid_pattern path"
    using check_segments_iff [of ?segs 0] by (simp add: invalid_pattern_def Let_def)
  show ?thesis
  proof (cases "IndexAny ?p '':*'' = None")
    case False
    with Inr iff show ?thesis
      by (auto simp add: Route_def Let_def split: option.splits)
  next
    case True
    then have no: "\<forall>c \<in> set ?p. \<not> is_marker c"
      by (simp add: IndexAny_None is_marker_set)
    note sub = Split_bytes
    have "set (Trim ?p CHR ''/'') \<subseteq> set ?p"
      unfolding Trim_def
      by (metis (no_types, lifting) set_dropWhileD set_rev subsetI)
    with sub no have none: "\<forall>seg \<in> set ?segs. \<forall>c \<in> set seg. \<not> is_marker c"
      by blast
    then have "\<forall>seg \<in> set ?segs. IndexAny seg '':*'' = None"
      by (simp add: IndexAny_None is_marker_set)
    then have "\<not> invalid_pattern path"
      using check_segment_ok
      by (auto simp add: invalid_pattern_def Let_def catch_all_before_end_def)
    with Inr True show ?thesis
      by (simp add: Route_def Let_def)
  qed
qed

text \<open>
  A pattern with an empty segment between two separators has none of the four errors
  and is registered; the matcher then panics on the one-byte segment when it reaches
  it.
\<close>

lemma empty_segment_panics_at_match:
  "map_sum id fst
     (Route_Match ''/a//:b'' (IsFunc 0) \<lparr>URL_Path = ''/a//x'', Body = NoBody\<rparr>)
   = Inl IndexOutOfRange"
  by (simp add: Route_Match_def Route_def normalize_path_def TrimLeft_def Trim_def Count_def
      Let_def init_world_def dynamic_route_def pool_Get_def caseSensitiveCompare_def)

text \<open>
  C7 (the code departs from the claim and from the comment of Route, which lists
  \<^verbatim>\<open>http.Handler\<close> among the accepted formats). The type switch of Route has a case
  for \<^verbatim>\<open>http.HandlerFunc\<close> and one for the plain function type, so a handler value of
  any other type that implements \<^verbatim>\<open>http.Handler\<close> reaches the default branch: Route
  panics on it, whatever the path.
\<close>

theorem Route_rejects_other_Handler:
  "Route w path (IsHandler t) = Inl NotAHandler"
  by (simp add: Route_def Let_def)

subsection \<open>Named segments\<close>

lemma Route_blog:
  "Route w ''/blog/:category/:post'' (IsFunc f) =
     Inr (dynamic_route [''/blog'', ''/:category'', ''/:post''] False (next_pool w)
            (Handle (HandlerFunc f)),
          w\<lparr>pools := (pools w)(next_pool w :=
               \<lparr>idle = [], New_num = 2, New_pattern = ''/blog/:category/:post''\<rparr>),
            next_pool := Suc (next_pool w)\<rparr>)"
  by (simp add: Route_def normalize_path_def TrimLeft_def Trim_def Count_def Let_def
      eval_nat_numeral)

lemma blog_matches_request_routers:
  "match caseSensitiveCompare [''/blog'', ''/:category'', ''/:post'']
     ''/blog/go/request-routers'' [] 2 False
   = Inr (True, [(''category'', ''go''), (''post'', ''request-routers'')])"
  by (simp add: caseSensitiveCompare_def scan_end_takeWhile)

lemma takeWhile_to_slash:
  "CHR ''/'' \<notin> set x \<Longrightarrow> takeWhile (\<lambda>c. c \<noteq> CHR ''/'') (x @ CHR ''/'' # y) = x"
  by (induction x) auto

lemma dropWhile_to_slash:
  "CHR ''/'' \<notin> set x \<Longrightarrow>
   dropWhile (\<lambda>c. c \<noteq> CHR ''/'') (x @ CHR ''/'' # y) = CHR ''/'' # y"
  by (induction x) auto

lemma blog_rejects_trailing_segments:
  assumes "CHR ''/'' \<notin> set a" "CHR ''/'' \<notin> set b"
  shows "match caseSensitiveCompare [''/blog'', ''/:category'', ''/:post'']
     (''/blog/'' @ a @ ''/'' @ b @ ''/'' @ rest) [] 2 False
   = Inr (False, [(''category'', a), (''post'', b)])"
proof -
  note tw = takeWhile_to_slash and dw = dropWhile_to_slash
  have "match caseSensitiveCompare [''/blog'', ''/:category'', ''/:post'']
     (''/blog'' @ (CHR ''/'' # a @ CHR ''/'' # b @ CHR ''/'' # rest)) [] 2 False
     = match caseSensitiveCompare [''/:category'', ''/:post'']
        (CHR ''/'' # a @ CHR ''/'' # b @ CHR ''/'' # rest) [] 2 False"
    by (rule match_literal) simp_all
  also have "\<dots> = match caseSensitiveCompare [''/:post'']
        (CHR ''/'' # b @ CHR ''/'' # rest) [(''category'', a)] 2 False"
    by (subst match_named) (simp_all add: tw dw assms)
  also have "\<dots> = match caseSensitiveCompare []
        (CHR ''/'' # rest) [(''category'', a), (''post'', b)] 2 False"
    by (subst match_named) (simp_all add: tw dw assms)
  also have "\<dots> = Inr (False, [(''category'', a), (''post'', b)])"
    by simp
  finally show ?thesis by simp
qed

text \<open>
  C1 (the code departs from the claim and from the package comment, which lists
  \<^verbatim>\<open>/blog/go/\<close> under "no match"). The route registered for
  \<^verbatim>\<open>/blog/:category/:post\<close> matches the request path \<^verbatim>\<open>/blog/go/\<close>: the last named
  segment finds the one byte \<^verbatim>\<open>/\<close> left, consumes it and binds \<open>post\<close> to the empty
  string at the end of the path, and the final check sees an empty rest.
\<close>

theorem blog_go_slash_matches:
  "(case Route init_world ''/blog/:category/:post'' (IsFunc 0) of
      Inl e \<Rightarrow> False
    | Inr (rt, w1) \<Rightarrow>
        (case rt (w1, \<lparr>URL_Path = ''/blog/go/'', Body = NoBody\<rparr>) of
           Inl e \<Rightarrow> False
         | Inr (found, s) \<Rightarrow>
             found = Some (Handle (HandlerFunc 0)) \<and>
             Parameters s = [(''category'', ''go''), (''post'', [])]))"
  by (simp add: Route_blog init_world_def dynamic_route_def pool_Get_def wrap_def
      Parameters_def parameterized_def caseSensitiveCompare_def scan_end_takeWhile)

subsection \<open>The catch-all segment\<close>

text \<open>
  C5. Route compiles \<^verbatim>\<open>/files/*filepath\<close> into the segments \<^verbatim>\<open>/files\<close> and
  \<^verbatim>\<open>/*filepath\<close> without a trailing-slash requirement and with capacity one. On
  these segments the matcher, given the path \<^verbatim>\<open>/files\<close> followed by any rest, fails
  when the rest is empty and otherwise succeeds at once, binding \<open>filepath\<close> to the
  whole rest as it stands (\<^verbatim>\<open>/files/\<close> binds \<^verbatim>\<open>/\<close>, \<^verbatim>\<open>/files/a/b\<close> binds
  \<^verbatim>\<open>/a/b\<close>); and it succeeds on no path of another form.
\<close>

theorem files_catch_all:
  "Route w ''/files/*filepath'' (IsFunc f) =
     Inr (dynamic_route [''/files'', ''/*filepath''] False (next_pool w)
            (Handle (HandlerFunc f)),
          w\<lparr>pools := (pools w)(next_pool w :=
               \<lparr>idle = [], New_num = 1, New_pattern = ''/files/*filepath''\<rparr>),
            next_pool := Suc (next_pool w)\<rparr>)
   \<and> match caseSensitiveCompare [''/files'', ''/*filepath''] (''/files'' @ rest) [] 1 False
       = (if rest = [] then Inr (False, []) else Inr (True, [(''filepath'', rest)]))
   \<and> (match caseSensitiveCompare [''/files'', ''/*filepath''] url [] 1 False = Inr (True, ps)
        \<longleftrightarrow> (\<exists>r. r \<noteq> [] \<and> url = ''/files'' @ r \<and> ps = [(''filepath'', r)]))"
proof -
  have compiled:
    "Route w ''/files/*filepath'' (IsFunc f) =
       Inr (dynamic_route [''/files'', ''/*filepath''] False (next_pool w)
              (Handle (HandlerFunc f)),
            w\<lparr>pools := (pools w)(next_pool w :=
                 \<lparr>idle = [], New_num = 1, New_pattern = ''/files/*filepath''\<rparr>),
              next_pool := Suc (next_pool w)\<rparr>)"
    by (simp add: Route_def normalize_path_def TrimLeft_def Trim_def Count_def Let_def)
  have on_prefix:
    "match caseSensitiveCompare [''/files'', ''/*filepath''] (''/files'' @ r) [] 1 False
       = (if r = [] then Inr (False, []) else Inr (True, [(''filepath'', r)]))" for r
    by (simp add: caseSensitiveCompare_def)
  have only_prefix:
    "match caseSensitiveCompare [''/files'', ''/*filepath''] url [] 1 False = Inr (True, ps)
       \<longleftrightarrow> (\<exists>r. r \<noteq> [] \<and> url = ''/files'' @ r \<and> ps = [(''filepath'', r)])"
    (is "?L \<longleftrightarrow> ?R")
  proof
    assume l: ?L
    then obtain r where u: "url = ''/files'' @ r"
      using match_literal_only [of "''/files''" "[''/*filepath'']" url "[]" 1 False ps]
      by auto
    with l on_prefix [of r] show ?R
      by (auto split: if_splits)
  next
    assume ?R
    then obtain r where r: "r \<noteq> []" "url = ''/files'' @ r" "ps = [(''filepath'', r)]"
      by blast
    from r(1) have "match caseSensitiveCompare [''/files'', ''/*filepath''] (''/files'' @ r) [] 1 False
      = Inr (True, [(''filepath'', r)])"
      by (simp only: on_prefix if_False)
    with r show ?L by (simp only:)
  qed
  from compiled on_prefix only_prefix show ?thesis by blast
qed

subsection \<open>Static routes\<close>

text \<open>
  C4, as stated, fails: the static route for \<^verbatim>\<open>/users/hello\<close> does not match the
  request path \<^verbatim>\<open>//users/hello\<close>, although that path, after the leading-slash
  normalization, equals the normalized pattern. Only the pattern is normalized.
\<close>

theorem static_match_normalized_request_counterexample:
  "normalize_path ''//users/hello'' = normalize_path ''/users/hello'' \<and>
   map_sum id fst
     (Route_Match ''/users/hello'' (IsFunc 0) \<lparr>URL_Path = ''//users/hello'', Body = NoBody\<rparr>)
   = Inr None"
  by (simp add: Route_Match_def Route_def normalize_path_def TrimLeft_def
      Let_def init_world_def static_route_def caseSensitiveCompare_def)

text \<open>
  C4, amended. For every static pattern \<open>P\<close> (its normalized form has no marker)
  and every request, under the default comparison function, the route that Route
  returns does not panic, and it matches if and only if the request path, as received,
  equals the normalized \<open>P\<close>.
\<close>

theorem static_match_iff_equal:
  assumes "IndexAny (normalize_path P) '':*'' = None"
    and "Route w0 P ha = Inr (rt, w1)"
    and "compareFunc w = caseSensitiveCompare"
  shows "map_sum id (\<lambda>(found, s). found \<noteq> None) (rt (w, req))
         = Inr (URL_Path req = normalize_path P)"
proof -
  from assms(2) obtain h where h: "handler_switch ha = Inr h"
    by (cases "handler_switch ha") (simp_all add: Route_def Let_def)
  from Route_static [OF assms(1) h, of w0] assms(2)
  have rt: "rt = static_route (normalize_path P) h (next_addr w0)"
    by simp
  show ?thesis
    using assms(3) by (auto simp add: rt static_route_def caseSensitiveCompare_def)
qed

text \<open>
  The amended C4 on the pattern \<^verbatim>\<open>/users/hello\<close>: it matches \<^verbatim>\<open>/users/hello\<close> and
  neither \<^verbatim>\<open>/user/hello\<close> nor \<^verbatim>\<open>/users/hello/\<close>.
\<close>

theorem static_match_iff_equal_witness:
  "IndexAny (normalize_path ''/users/hello'') '':*'' = None \<and>
   compareFunc init_world = caseSensitiveCompare \<and>
   map_sum id (\<lambda>(found, s). found \<noteq> None)
     (Route_Match ''/users/hello'' (IsFunc 0) \<lparr>URL_Path = ''/users/hello'', Body = NoBody\<rparr>)
     = Inr True \<and>
   map_sum id (\<lambda>(found, s). found \<noteq> None)
     (Route_Match ''/users/hello'' (IsFunc 0) \<lparr>URL_Path = ''/user/hello'', Body = NoBody\<rparr>)
     = Inr False \<and>
   map_sum id (\<lambda>(found, s). found \<noteq> None)
     (Route_Match ''/users/hello'' (IsFunc 0) \<lparr>URL_Path = ''/users/hello/'', Body = NoBody\<rparr>)
     = Inr False"
proof -
  have st: "IndexAny (normalize_path ''/users/hello'') '':*'' = None"
    by (simp add: normalize_path_def TrimLeft_def)
  have cf: "compareFunc init_world = caseSensitiveCompare"
    by (simp add: init_world_def)
  obtain rt w1 where r: "Route init_world ''/users/hello'' (IsFunc 0) = Inr (rt, w1)"
    using Route_static [OF st, of "IsFunc 0" "HandlerFunc 0" init_world] by simp
  have cf1: "compareFunc w1 = caseSensitiveCompare"
    using r Route_static [OF st, of "IsFunc 0" "HandlerFunc 0" init_world]
    by (auto simp add: init_world_def)
  have n: "normalize_path ''/users/hello'' = ''/users/hello''"
    by (simp add: normalize_path_def TrimLeft_def)
  show ?thesis
    using st cf static_match_iff_equal [OF st r cf1] r
    by (simp add: Route_Match_def n)
qed

subsection \<open>The carrier of a static route\<close>

text \<open>
  C3 (the code departs from the claim). The static route for \<^verbatim>\<open>/users/hello\<close>
  matches a request whose Body is stream 1 and then, before that request is released,
  a request whose Body is stream 2. Each match saves the request's Body in the route's
  one carrier, so the second overwrites what the first saved: the carrier holds stream
  1 after the first match and stream 2 after the second, both requests have the same
  carrier as their Body, and Recycle on the first request gives it the second
  request's stream. A dynamic route draws a carrier for each request, and wrap and
  reset exist to give each request its own Body back.
\<close>

theorem static_carrier_hands_over_other_Body:
  "(case Route init_world ''/users/hello'' (IsFunc 0) of
      Inl e \<Rightarrow> False
    | Inr (rt, w1) \<Rightarrow>
        (case rt (w1, \<lparr>URL_Path = ''/users/hello'', Body = Stream 1\<rparr>) of
           Inl e \<Rightarrow> False
         | Inr (found1, w2, req1) \<Rightarrow>
             (case rt (w2, \<lparr>URL_Path = ''/users/hello'', Body = Stream 2\<rparr>) of
                Inl e \<Rightarrow> False
              | Inr (found2, w3, req2) \<Rightarrow>
                  found1 = Some (HandlerFunc 0) \<and> found2 = Some (HandlerFunc 0) \<and>
                  Body req1 = Carrier 0 \<and> Body req2 = Carrier 0 \<and>
                  ReadCloser (heap w2 0) = Stream 1 \<and>
                  ReadCloser (heap w3 0) = Stream 2 \<and>
                  Body (snd (Recycle (w3, req1))) = Stream 2)))"
  by (simp add: Route_def normalize_path_def TrimLeft_def emptyParams_def Let_def
      init_world_def static_route_def wrap_def caseSensitiveCompare_def Recycle_def
      parameterized_def reset_def)

text \<open>
  What a Match of a static route writes: it never panics and never changes its
  carrier's Parameters, capacity, pattern or pool; a successful match overwrites the
  carrier's ReadCloser field with the request's Body and writes nothing else to the
  store; a failed match writes nothing.
\<close>

lemma static_match_writes_only_saved_Body:
  "map_sum id (\<lambda>(found, w', req'). heap w') (static_route p h ps (w, req))
     = Inr (if compareFunc w p (URL_Path req)
            then (heap w)(ps := (heap w ps)\<lparr>ReadCloser := Body req\<rparr>)
            else heap w)
   \<and>
   map_sum id (\<lambda>(found, w', req').
        (params (heap w' ps), params_cap (heap w' ps), pattern (heap w' ps), pool (heap w' ps)))
      (static_route p h ps (w, req))
     = Inr (params (heap w ps), params_cap (heap w ps), pattern (heap w ps), pool (heap w ps))"
  by (simp add: static_route_def wrap_def)

subsection \<open>A failed match of a dynamic route\<close>

lemma static_route_Some:
  assumes "static_route p h ps (w, req) = Inr (Some h', s')"
  shows "h' = h \<and> s' = wrap ps (w, req)"
  using assms by (simp add: static_route_def split: if_splits)

lemma dynamic_route_Some:
  assumes "dynamic_route segs ts k hdl (w, req) = Inr (Some h', s')"
  shows "h' = hdl \<and> (\<exists>w2. s' = wrap (fst (pool_Get k w)) (w2, req))"
  using assms
  by (auto simp add: dynamic_route_def Let_def split: prod.splits sum.splits if_splits)

lemma dynamic_route_result:
  assumes "dynamic_route segs ts k h (w, req) = Inr (found, s')"
    and "pool_Get k w = (a, w1)"
  shows "\<exists>ps'.
     (found = Some h \<and>
      s' = wrap a (w1\<lparr>heap := (heap w1)(a := (heap w1 a)\<lparr>params := ps'\<rparr>)\<rparr>, req)) \<or>
     (found = None \<and>
      s' = reset a (w1\<lparr>heap := (heap w1)(a := (heap w1 a)\<lparr>params := ps'\<rparr>)\<rparr>, req))"
  using assms
  by (auto simp add: dynamic_route_def Let_def split: sum.splits if_splits)

text \<open>
  After a failed match the request's Body is whatever the drawn carrier had saved:
  reset restores a Body that wrap did not save on this path.
\<close>

lemma failed_dynamic_route_Body:
  assumes "dynamic_route segs ts k h (w, req) = Inr (None, w', req')"
  shows "Body req' = ReadCloser (heap (snd (pool_Get k w)) (fst (pool_Get k w)))"
proof -
  obtain a w1 where g: "pool_Get k w = (a, w1)" by (cases "pool_Get k w")
  from dynamic_route_result [OF assms g] show ?thesis
    by (auto simp add: g reset_def pool_Put_def Let_def split: option.splits)
qed

text \<open>
  C2 (the code departs from the claim). The route \<^verbatim>\<open>/a/:b\<close>, just registered, is
  asked to match a request with path \<^verbatim>\<open>/x\<close> whose Body is the host's stream 7. The
  match fails and Match returns nil, and the request's Body is nil afterwards: reset
  assigns the carrier's saved ReadCloser to the Body, but on this path wrap never
  saved the Body there, and a new carrier's ReadCloser is nil.
\<close>

theorem failed_dynamic_match_clobbers_Body:
  "map_sum id (\<lambda>(found, w, req). (found, Body req))
     (Route_Match ''/a/:b'' (IsFunc 0) \<lparr>URL_Path = ''/x'', Body = Stream 7\<rparr>)
   = Inr (None, NoBody)"
  by (simp add: Route_Match_def Route_def normalize_path_def TrimLeft_def Trim_def Count_def
      Let_def init_world_def dynamic_route_def pool_Get_def pool_Put_def reset_def
      caseSensitiveCompare_def)

text \<open>
  With a carrier that was used before, the Body of the request that fails to match
  becomes the Body of the earlier request.
\<close>

lemma failed_dynamic_match_takes_earlier_Body:
  "(case Route init_world ''/a/:b'' (IsFunc 0) of
      Inl e \<Rightarrow> False
    | Inr (rt, w1) \<Rightarrow>
        (case rt (w1, \<lparr>URL_Path = ''/a/x'', Body = Stream 1\<rparr>) of
           Inl e \<Rightarrow> False
         | Inr (found1, s1) \<Rightarrow>
             (case rt (fst (Recycle s1), \<lparr>URL_Path = ''/x'', Body = Stream 2\<rparr>) of
                Inl e \<Rightarrow> False
              | Inr (found2, w2, req2) \<Rightarrow>
                  found1 = Some (Handle (HandlerFunc 0)) \<and> found2 = None \<and>
                  Body req2 = Stream 1)))"
  by (simp add: Route_a_b init_world_def dynamic_route_def pool_Get_def pool_Put_def
      wrap_def reset_def Recycle_def parameterized_def caseSensitiveCompare_def
      scan_end_takeWhile)

subsection \<open>The invariant of reachable stores\<close>

lemma ServeHTTP_quiet:
  assumes "\<forall>f s. run f s = s"
  shows "ServeHTTP run (HandlerFunc f) s = s"
    and "ServeHTTP run (Handle h) s = Recycle (ServeHTTP run h s)"
  by (simp_all add: assms Recycle_def Let_def)


lemma wf_init_world: "wf_world init_world"
  by (simp add: wf_world_def init_world_def)

lemma wf_Route:
  assumes "wf_world w" "Route w path ha = Inr (rt, w')"
  shows "wf_world w'"
  using assms(2)
proof (cases rule: Route_cases)
  case (static h)
  with assms(1) show ?thesis
    by (fastforce simp add: wf_world_def)
next
  case (dynamic h segs)
  with assms(1) show ?thesis
    by (fastforce simp add: wf_world_def)
qed

lemma wf_wrap: "wf_world w \<Longrightarrow> wf_world (fst (wrap a (w, req)))"
  by (simp add: wf_world_def wrap_def)

lemma wf_reset: "wf_world w \<Longrightarrow> wf_world (fst (reset a (w, req)))"
  by (auto simp add: wf_world_def reset_def pool_Put_def Let_def split: option.splits)

lemma wf_params: "wf_world w \<Longrightarrow> wf_world (w\<lparr>heap := (heap w)(a := (heap w a)\<lparr>params := ps\<rparr>)\<rparr>)"
  by (simp add: wf_world_def)

lemma wf_pool_Get:
  assumes "wf_world w" "k < next_pool w"
  shows "wf_world (snd (pool_Get k w))"
proof (cases "idle (pools w k)")
  case Nil
  with assms show ?thesis
    by (fastforce simp add: wf_world_def pool_Get_def Let_def)
next
  case (Cons a rest)
  with assms show ?thesis
    by (auto simp add: wf_world_def pool_Get_def Let_def)
qed

lemma wf_static_route:
  "wf_world w \<Longrightarrow> static_route p h ps (w, req) = Inr (found, w', req') \<Longrightarrow> wf_world w'"
  by (auto simp add: static_route_def split: if_splits dest: wf_wrap [of w ps req])

lemma wf_dynamic_route:
  assumes "wf_world w" "k < next_pool w"
    "dynamic_route segs ts k h (w, req) = Inr (found, w', req')"
  shows "wf_world w'"
proof -
  obtain a w1 where g: "pool_Get k w = (a, w1)" by (cases "pool_Get k w")
  with wf_pool_Get [OF assms(1,2)] have w1: "wf_world w1" by simp
  from assms(3) g obtain matched ps' where
    m: "match (compareFunc w1) segs (URL_Path req) (params (heap w1 a)) (params_cap (heap w1 a)) ts
          = Inr (matched, ps')"
    by (auto simp add: dynamic_route_def split: sum.splits)
  let ?w2 = "w1\<lparr>heap := (heap w1)(a := (heap w1 a)\<lparr>params := ps'\<rparr>)\<rparr>"
  have w2: "wf_world ?w2" using w1 by (rule wf_params)
  show ?thesis
  proof (cases matched)
    case True
    with assms(3) g m have "w' = fst (wrap a (?w2, req))"
      by (auto simp add: dynamic_route_def Let_def)
    with w2 show ?thesis by (simp add: wf_wrap)
  next
    case False
    with assms(3) g m have "w' = fst (reset a (?w2, req))"
      by (auto simp add: dynamic_route_def Let_def)
    with w2 show ?thesis by (simp add: wf_reset)
  qed
qed

lemma wf_Recycle: "wf_world w \<Longrightarrow> wf_world (fst (Recycle (w, req)))"
  by (simp add: Recycle_def wf_reset split: option.splits)

lemma wf_ServeHTTP:
  assumes "\<forall>f s. run f s = s"
  shows "wf_world (fst s) \<Longrightarrow> wf_world (fst (ServeHTTP run h s))"
proof (induction h arbitrary: s)
  case (HandlerFunc f)
  then show ?case by (simp add: assms)
next
  case (Handle h)
  then have "wf_world (fst (ServeHTTP run h s))" by simp
  then have "wf_world (fst (Recycle (ServeHTTP run h s)))"
    using wf_Recycle [of "fst (ServeHTTP run h s)" "snd (ServeHTTP run h s)"] by simp
  then show ?case by (simp only: ServeHTTP_quiet(2) [OF assms])
qed

lemma wf_evolves: "evolves w w' \<Longrightarrow> wf_world w \<Longrightarrow> wf_world w'"
proof (induction rule: evolves.induct)
  case (start w)
  then show ?case .
next
  case (registered w w1 path ha rt w2)
  then show ?case using wf_Route by blast
next
  case (static_matched w w1 p h ps req found w2 req')
  then show ?case using wf_static_route by blast
next
  case (dynamic_matched w w1 k segments ts h req found w2 req')
  then show ?case using wf_dynamic_route by blast
next
  case (recycled w w1 req w2 req')
  then show ?case using wf_Recycle [of w1 req] by simp
next
  case (served w w1 run h req w2 req')
  then show ?case using wf_ServeHTTP [of run "(w1, req)" h] by simp
next
  case (compared w w1 cmp)
  then show ?case by (simp add: wf_world_def)
qed

lemma keeps_refl: "keeps w w"
  by (simp add: keeps_def)

lemma keeps_trans: "keeps w w1 \<Longrightarrow> keeps w1 w2 \<Longrightarrow> keeps w w2"
  by (auto simp add: keeps_def)

lemma keeps_Route: "Route w path ha = Inr (rt, w') \<Longrightarrow> keeps w w'"
  by (erule Route_cases) (simp_all add: keeps_def)

lemma keeps_wrap: "keeps w (fst (wrap a (w, req)))"
  by (simp add: keeps_def wrap_def)

lemma keeps_reset: "keeps w (fst (reset a (w, req)))"
  by (simp add: keeps_def reset_def pool_Put_def Let_def split: option.splits)

lemma keeps_params: "keeps w (w\<lparr>heap := (heap w)(a := (heap w a)\<lparr>params := ps\<rparr>)\<rparr>)"
  by (simp add: keeps_def)

lemma keeps_pool_Get: "keeps w (snd (pool_Get k w))"
  by (simp add: keeps_def pool_Get_def Let_def split: list.splits)

lemma keeps_static_route:
  "static_route p h ps (w, req) = Inr (found, w', req') \<Longrightarrow> keeps w w'"
  using keeps_wrap [of w ps req]
  by (auto simp add: static_route_def keeps_refl split: if_splits)

lemma keeps_dynamic_route:
  assumes "dynamic_route segs ts k h (w, req) = Inr (found, w', req')"
  shows "keeps w w'"
proof -
  obtain a w1 where g: "pool_Get k w = (a, w1)" by (cases "pool_Get k w")
  with keeps_pool_Get [of w k] have w1: "keeps w w1" by simp
  from assms g obtain matched ps' where
    m: "match (compareFunc w1) segs (URL_Path req) (params (heap w1 a)) (params_cap (heap w1 a)) ts
          = Inr (matched, ps')"
    by (auto simp add: dynamic_route_def split: sum.splits)
  let ?w2 = "w1\<lparr>heap := (heap w1)(a := (heap w1 a)\<lparr>params := ps'\<rparr>)\<rparr>"
  have w2: "keeps w ?w2" using w1 keeps_params by (rule keeps_trans)
  show ?thesis
  proof (cases matched)
    case True
    with assms g m have "w' = fst (wrap a (?w2, req))"
      by (auto simp add: dynamic_route_def Let_def)
    with w2 keeps_wrap [of ?w2 a req] show ?thesis by (simp add: keeps_trans)
  next
    case False
    with assms g m have "w' = fst (reset a (?w2, req))"
      by (auto simp add: dynamic_route_def Let_def)
    with w2 keeps_reset [of ?w2 a req] show ?thesis by (simp add: keeps_trans)
  qed
qed

lemma keeps_Recycle: "keeps w (fst (Recycle (w, req)))"
  by (simp add: Recycle_def keeps_reset keeps_refl split: option.splits)

lemma keeps_ServeHTTP:
  assumes "\<forall>f s. run f s = s"
  shows "keeps (fst s) (fst (ServeHTTP run h s))"
proof (induction h)
  case (HandlerFunc f)
  show ?case by (simp add: assms keeps_refl)
next
  case (Handle h)
  have "keeps (fst (ServeHTTP run h s)) (fst (Recycle (ServeHTTP run h s)))"
    using keeps_Recycle [of "fst (ServeHTTP run h s)" "snd (ServeHTTP run h s)"] by simp
  with Handle have "keeps (fst s) (fst (Recycle (ServeHTTP run h s)))"
    by (rule keeps_trans)
  then show ?case by (simp only: ServeHTTP_quiet(2) [OF assms])
qed

lemma keeps_evolves: "evolves w w' \<Longrightarrow> keeps w w'"
proof (induction rule: evolves.induct)
  case (start w)
  show ?case by (rule keeps_refl)
next
  case (registered w w1 path ha rt w2)
  then show ?case using keeps_Route keeps_trans by blast
next
  case (static_matched w w1 p h ps req found w2 req')
  then show ?case using keeps_static_route keeps_trans by blast
next
  case (dynamic_matched w w1 k segments ts h req found w2 req')
  then show ?case using keeps_dynamic_route keeps_trans by blast
next
  case (recycled w w1 req w2 req')
  then show ?case using keeps_Recycle [of w1 req] keeps_trans by fastforce
next
  case (served w w1 run h req w2 req')
  then show ?case using keeps_ServeHTTP [of run "(w1, req)" h] keeps_trans by fastforce
next
  case (compared w w1 cmp)
  then have "keeps w1 (w1\<lparr>compareFunc := cmp\<rparr>)" by (simp add: keeps_def)
  with compared show ?case using keeps_trans by blast
qed

subsection \<open>Recycle\<close>

lemma Recycle_wrap:
  "Recycle (Recycle (wrap a (w, req))) = Recycle (wrap a (w, req))"
  if "parameterized req = None"
  using that
  by (auto simp add: Recycle_def wrap_def reset_def parameterized_def pool_Put_def Let_def
      split: option.splits body.splits)

lemma Recycle_wrap_released:
  "parameterized (snd (Recycle (wrap a (w, req)))) = None"
  if "parameterized req = None"
  using that
  by (auto simp add: Recycle_def wrap_def reset_def parameterized_def pool_Put_def Let_def
      split: option.splits body.splits)

lemma Serve_Handle_wrap:
  assumes "\<forall>f s. run f s = s"
  shows "ServeHTTP run (Handle (HandlerFunc f)) (wrap a (w, req)) = Recycle (wrap a (w, req))"
  using assms by (simp add: Recycle_def wrap_def parameterized_def)

text \<open>
  One route alone. A request that carries no parameters (its Body is not a carrier) is
  matched by a route that Route returned, in any store. Once Recycle has been called on it, its
  parameters are released, and calling Recycle again changes neither the store (no pool
  operation, no carrier written) nor the request. The same holds after the matched
  handler of a dynamic route has been served, when the application's handler leaves the
  store and the request as they are. After the matched handler of any route has been
  served, in a store reached from the one Route left, Recycle leaves the store as it
  is: serving the handler of a static route releases nothing, and Recycle then only
  restores the request's Body.
\<close>

lemma Recycle_twice_is_noop:
  assumes reg: "Route w0 path ha = Inr (rt, w1)"
    and m: "rt (w, req) = Inr (Some h, s1)"
    and fresh: "parameterized req = None"
  shows "Recycle (Recycle s1) = Recycle s1
       \<and> parameterized (snd (Recycle s1)) = None
       \<and> ((\<forall>f s. run f s = s) \<and> IndexAny (normalize_path path) '':*'' \<noteq> None
            \<longrightarrow> Recycle (ServeHTTP run h s1) = ServeHTTP run h s1)
       \<and> ((\<forall>f s. run f s = s) \<and> evolves w1 w
            \<longrightarrow> fst (Recycle (ServeHTTP run h s1)) = fst (ServeHTTP run h s1))"
proof -
  from reg show ?thesis
  proof (cases rule: Route_cases)
    case (static h0)
    from static(1) obtain f where h0: "h0 = HandlerFunc f"
      by (cases ha) auto
    from m static(3) have s1: "h = h0" "s1 = wrap (next_addr w0) (w, req)"
      using static_route_Some by blast+
    have "fst (Recycle (ServeHTTP run h s1)) = fst (ServeHTTP run h s1)"
      if quiet: "\<forall>f s. run f s = s" and later: "evolves w1 w"
    proof -
      from static(4) have "next_addr w0 < next_addr w1" "pool (heap w1 (next_addr w0)) = None"
        by simp_all
      with keeps_evolves [OF later] have "pool (heap w (next_addr w0)) = None"
        by (simp add: keeps_def)
      then have "fst (Recycle s1) = fst s1"
        by (simp add: s1 Recycle_def wrap_def parameterized_def reset_def)
      then show ?thesis
        by (simp add: s1(1) h0 quiet)
    qed
    with fresh static(2) s1 show ?thesis
      by (simp add: Recycle_wrap Recycle_wrap_released)
  next
    case (dynamic h0 segs)
    from dynamic(1) obtain f where h0: "h0 = HandlerFunc f"
      by (cases ha) auto
    from m dynamic(5) obtain w2 where
      s1: "h = Handle h0" "s1 = wrap (fst (pool_Get (next_pool w0) w)) (w2, req)"
      using dynamic_route_Some by blast
    from fresh have twice: "Recycle (Recycle s1) = Recycle s1"
      and released: "parameterized (snd (Recycle s1)) = None"
      by (simp_all only: s1 Recycle_wrap Recycle_wrap_released)
    have "Recycle (ServeHTTP run h s1) = ServeHTTP run h s1" if "\<forall>f s. run f s = s"
    proof -
      have "ServeHTTP run h s1 = Recycle s1"
        unfolding s1 h0 by (rule Serve_Handle_wrap [OF that])
      with twice show ?thesis by simp
    qed
    then have "fst (Recycle (ServeHTTP run h s1)) = fst (ServeHTTP run h s1)"
      if "\<forall>f s. run f s = s"
      using that by simp
    with twice released
      \<open>(\<forall>f s. run f s = s) \<Longrightarrow> Recycle (ServeHTTP run h s1) = ServeHTTP run h s1\<close>
    show ?thesis by blast
  qed
qed

text \<open>
  The same on the route \<^verbatim>\<open>/a/:b\<close> and a request for \<^verbatim>\<open>/a/x\<close> with the host's
  stream 7 as its Body.
\<close>

lemma Recycle_twice_is_noop_example:
  "\<exists>rt w1 s1.
     Route init_world ''/a/:b'' (IsFunc 0) = Inr (rt, w1) \<and>
     rt (w1, \<lparr>URL_Path = ''/a/x'', Body = Stream 7\<rparr>) = Inr (Some (Handle (HandlerFunc 0)), s1) \<and>
     parameterized \<lparr>URL_Path = ''/a/x'', Body = Stream 7\<rparr> = None \<and>
     IndexAny (normalize_path ''/a/:b'') '':*'' \<noteq> None \<and>
     Body (snd s1) = Carrier 0 \<and>
     Body (snd (Recycle s1)) = Stream 7 \<and>
     Recycle (Recycle s1) = Recycle s1 \<and>
     parameterized (snd (Recycle s1)) = None \<and>
     Recycle (ServeHTTP (\<lambda>f s. s) (Handle (HandlerFunc 0)) s1)
       = ServeHTTP (\<lambda>f s. s) (Handle (HandlerFunc 0)) s1"
proof -
  let ?req = "\<lparr>URL_Path = ''/a/x'', Body = Stream 7\<rparr>"
  let ?rt = "dynamic_route [''/a'', ''/:b''] False 0 (Handle (HandlerFunc 0))"
  let ?w1 = "init_world\<lparr>pools := (pools init_world)(0 :=
               \<lparr>idle = [], New_num = 1, New_pattern = ''/a/:b''\<rparr>),
            next_pool := Suc 0\<rparr>"
  have reg: "Route init_world ''/a/:b'' (IsFunc 0) = Inr (?rt, ?w1)"
    by (simp add: Route_a_b init_world_def)
  obtain s1 where m: "?rt (?w1, ?req) = Inr (Some (Handle (HandlerFunc 0)), s1)"
    and b: "Body (snd s1) = Carrier 0" "Body (snd (Recycle s1)) = Stream 7"
    by (simp add: init_world_def dynamic_route_def pool_Get_def wrap_def
        caseSensitiveCompare_def scan_end_takeWhile Recycle_def parameterized_def reset_def
        pool_Put_def)
  have fresh: "parameterized ?req = None"
    by (simp add: parameterized_def)
  have dyn: "IndexAny (normalize_path ''/a/:b'') '':*'' \<noteq> None"
    by (simp add: normalize_path_def TrimLeft_def)
  from Recycle_twice_is_noop [OF reg m fresh, of "\<lambda>f s. s"] dyn reg m fresh b
  show ?thesis by blast
qed

text \<open>
  Every router the package builds keeps the saved Bodies plain; the empty program's
  store is such a store and Route leaves one.
\<close>

lemma keeps_plainI:
  assumes "\<And>w req found w' req'. plain_saved w \<Longrightarrow> parameterized req = None \<Longrightarrow>
      rt (w, req) = Inr (found, w', req') \<Longrightarrow>
      plain_saved w' \<and>
      (case found of None \<Rightarrow> parameterized req' = None | Some h \<Rightarrow> \<exists>a. Body req' = Carrier a)"
  shows "keeps_plain rt"
  unfolding keeps_plain_def using assms by blast

lemma keeps_plainD:
  assumes "keeps_plain rt" "plain_saved w" "parameterized req = None"
    "rt (w, req) = Inr (found, w', req')"
  shows "plain_saved w'"
    and "found = None \<Longrightarrow> parameterized req' = None"
    and "found = Some h \<Longrightarrow> \<exists>a. Body req' = Carrier a"
proof -
  from assms have c: "plain_saved w' \<and>
      (case found of None \<Rightarrow> parameterized req' = None | Some h \<Rightarrow> \<exists>a. Body req' = Carrier a)"
    unfolding keeps_plain_def by blast
  then show "plain_saved w'" by simp
  from c show "found = None \<Longrightarrow> parameterized req' = None" by simp
  from c show "found = Some h \<Longrightarrow> \<exists>a. Body req' = Carrier a" by simp
qed

lemma keeps_plain_static: "keeps_plain (static_route p h ps)"
proof (rule keeps_plainI)
  fix w req found w' req'
  assume "plain_saved w" "parameterized req = None"
    "static_route p h ps (w, req) = Inr (found, w', req')"
  then show "plain_saved w' \<and>
      (case found of None \<Rightarrow> parameterized req' = None | Some h \<Rightarrow> \<exists>a. Body req' = Carrier a)"
    by (auto simp add: static_route_def wrap_def plain_saved_def parameterized_def
        split: if_splits body.splits)
qed

lemma plain_saved_pool_Get: "plain_saved w \<Longrightarrow> plain_saved (snd (pool_Get k w))"
  by (auto simp add: pool_Get_def plain_saved_def Let_def split: list.splits if_splits)

lemma plain_saved_params:
  "plain_saved w \<Longrightarrow> plain_saved (w\<lparr>heap := (heap w)(a := (heap w a)\<lparr>params := ps\<rparr>)\<rparr>)"
  by (auto simp add: plain_saved_def split: if_splits)

lemma plain_saved_wrap:
  "plain_saved w \<Longrightarrow> parameterized req = None \<Longrightarrow> plain_saved (fst (wrap a (w, req)))"
  by (auto simp add: wrap_def plain_saved_def parameterized_def split: if_splits body.splits)

lemma plain_saved_reset:
  "plain_saved w \<Longrightarrow> plain_saved (fst (reset a (w, req)))
     \<and> parameterized (snd (reset a (w, req))) = None"
  by (auto simp add: reset_def pool_Put_def plain_saved_def parameterized_def Let_def
      split: option.splits body.splits if_splits)

lemma keeps_plain_dynamic: "keeps_plain (dynamic_route segments ts k h)"
proof (rule keeps_plainI)
  fix w req found w' req'
  assume pw: "plain_saved w" and fresh: "parameterized req = None"
    and m: "dynamic_route segments ts k h (w, req) = Inr (found, w', req')"
  obtain a w1 where g: "pool_Get k w = (a, w1)" by (cases "pool_Get k w")
  from plain_saved_pool_Get [OF pw, of k] g have p1: "plain_saved w1" by simp
  from dynamic_route_result [OF m g] obtain ps' where
    r: "(found = Some h \<and>
         (w', req') = wrap a (w1\<lparr>heap := (heap w1)(a := (heap w1 a)\<lparr>params := ps'\<rparr>)\<rparr>, req)) \<or>
        (found = None \<and>
         (w', req') = reset a (w1\<lparr>heap := (heap w1)(a := (heap w1 a)\<lparr>params := ps'\<rparr>)\<rparr>, req))"
    by blast
  let ?w2 = "w1\<lparr>heap := (heap w1)(a := (heap w1 a)\<lparr>params := ps'\<rparr>)\<rparr>"
  have p2: "plain_saved ?w2" using p1 by (rule plain_saved_params)
  from r show "plain_saved w' \<and>
      (case found of None \<Rightarrow> parameterized req' = None | Some h \<Rightarrow> \<exists>a. Body req' = Carrier a)"
  proof
    assume "found = Some h \<and> (w', req') = wrap a (?w2, req)"
    then have f: "found = Some h" and w: "w' = fst (wrap a (?w2, req))"
      and q: "req' = snd (wrap a (?w2, req))"
      by (simp_all add: prod_eq_iff)
    from plain_saved_wrap [OF p2 fresh, of a] w have "plain_saved w'" by simp
    moreover from q have "Body req' = Carrier a" by (simp add: wrap_def)
    ultimately show ?thesis using f by auto
  next
    assume "found = None \<and> (w', req') = reset a (?w2, req)"
    then have f: "found = None" and w: "w' = fst (reset a (?w2, req))"
      and q: "req' = snd (reset a (?w2, req))"
      by (simp_all add: prod_eq_iff)
    from plain_saved_reset [OF p2, of a req] w q f show ?thesis by simp
  qed
qed

lemma keeps_plain_New:
  "\<forall>r \<in> set routes. keeps_plain r \<Longrightarrow> keeps_plain (New routes)"
proof (induction routes)
  case Nil
  show ?case by (rule keeps_plainI) simp
next
  case (Cons r routes)
  then have r: "keeps_plain r" and rest: "keeps_plain (New routes)" by simp_all
  show ?case
  proof (rule keeps_plainI)
    fix w req found w' req'
    assume pw: "plain_saved w" and fresh: "parameterized req = None"
      and m: "New (r # routes) (w, req) = Inr (found, w', req')"
    from m obtain f1 w1 req1 where r1: "r (w, req) = Inr (f1, w1, req1)"
      by (auto split: sum.splits)
    note d = keeps_plainD [OF r pw fresh r1]
    show "plain_saved w' \<and>
      (case found of None \<Rightarrow> parameterized req' = None | Some h \<Rightarrow> \<exists>a. Body req' = Carrier a)"
    proof (cases f1)
      case None
      with m r1 have n: "New routes (w1, req1) = Inr (found, w', req')" by simp
      from keeps_plainD [OF rest d(1) d(2) [OF None] n] show ?thesis
        by (cases found) simp_all
    next
      case (Some h)
      with m r1 have "found = Some h" "w' = w1" "req' = req1" by simp_all
      with d(1) d(3) [OF Some] show ?thesis by simp
    qed
  qed
qed

lemma keeps_plain_ComparesPathWith:
  assumes "keeps_plain router"
  shows "keeps_plain (ComparesPathWith router cmp)"
proof (rule keeps_plainI)
  fix w req found w' req'
  assume pw: "plain_saved w" and fresh: "parameterized req = None"
    and m: "ComparesPathWith router cmp (w, req) = Inr (found, w', req')"
  from m obtain w1 where
    r: "router (w\<lparr>compareFunc := cmp\<rparr>, req) = Inr (found, w1, req')"
    and w': "w' = w1\<lparr>compareFunc := caseSensitiveCompare\<rparr>"
    by (auto simp add: ComparesPathWith_def split: sum.splits)
  from pw have p: "plain_saved (w\<lparr>compareFunc := cmp\<rparr>)"
    by (simp add: plain_saved_def)
  note d = keeps_plainD [OF assms p fresh r]
  from d(1) have "plain_saved w'" by (simp add: w' plain_saved_def)
  with d(2,3) show "plain_saved w' \<and>
      (case found of None \<Rightarrow> parameterized req' = None | Some h \<Rightarrow> \<exists>a. Body req' = Carrier a)"
    by (cases found) simp_all
qed

lemma keeps_plain_built: "built rt \<Longrightarrow> keeps_plain rt"
proof (induction rule: built.induct)
  case (static p h ps)
  show ?case by (rule keeps_plain_static)
next
  case (dynamic segments ts k h)
  show ?case by (rule keeps_plain_dynamic)
next
  case (composite routes)
  then show ?case by (simp add: keeps_plain_New)
next
  case (comparing router cmp)
  then show ?case by (simp add: keeps_plain_ComparesPathWith)
qed

text \<open>
  The same for every router the package builds, dispatchers included, in a store where
  no carrier has saved a carrier as a Body: once Recycle has been called on the
  matched request, calling it again changes nothing.
\<close>

lemma Recycle_twice_any_router:
  assumes "built rt" "plain_saved w" "parameterized req = None"
    and "rt (w, req) = Inr (Some h, s1)"
  shows "Recycle (Recycle s1) = Recycle s1"
proof -
  obtain w1 req1 where s1: "s1 = (w1, req1)" by (cases s1)
  from assms(4) s1 have m: "rt (w, req) = Inr (Some h, w1, req1)" by simp
  note d = keeps_plainD [OF keeps_plain_built [OF assms(1)] assms(2,3) m]
  from d(3) obtain a where b: "Body req1 = Carrier a" by blast
  from plain_saved_reset [OF d(1), of a req1]
  have "parameterized (snd (reset a (w1, req1))) = None" by simp
  with b show ?thesis
    by (simp add: s1 Recycle_def parameterized_def)
qed

lemma plain_saved_init_world: "plain_saved init_world"
  by (simp add: plain_saved_def init_world_def)

lemma plain_saved_Route:
  "plain_saved w \<Longrightarrow> Route w path ha = Inr (rt, w') \<Longrightarrow> plain_saved w' \<and> built rt"
  by (erule Route_cases) (auto simp add: plain_saved_def built.static built.dynamic)

text \<open>
  C9 (the code departs from the claim and from the comment of Pattern, which promises
  the empty string once a request was served or recycled). Three routes are
  registered, \<^verbatim>\<open>/:a/:b\<close>, \<^verbatim>\<open>/x/:id\<close> and \<^verbatim>\<open>/y/:id\<close>. A request for \<^verbatim>\<open>/x/1\<close> is
  matched by the first and by the second, and Recycle is called on it twice, which
  releases both carriers: the first route's pool holds carrier 0, and carrier 1, back
  in the second route's pool, still has carrier 0 saved as a Body. Then a new request
  for \<^verbatim>\<open>/y/7\<close> goes to the dispatcher of the second and third routes. The second
  route declines, and its reset leaves carrier 0 in the request's Body; the third
  matches and saves that Body, and its handler is served, which releases the third
  route's carrier and restores carrier 0 as the Body. The request has been served, yet
  Pattern returns \<^verbatim>\<open>/:a/:b\<close> for it, and calling Recycle on it puts carrier 0 into
  the first route's pool a second time.
\<close>

theorem Recycle_after_serving_is_not_noop:
  "(case Route init_world ''/:a/:b'' (IsFunc 0) of
      Inl e \<Rightarrow> False
    | Inr (r0, w0) \<Rightarrow>
   (case Route w0 ''/x/:id'' (IsFunc 1) of
      Inl e \<Rightarrow> False
    | Inr (r1, w1) \<Rightarrow>
   (case Route w1 ''/y/:id'' (IsFunc 2) of
      Inl e \<Rightarrow> False
    | Inr (r2, w2) \<Rightarrow>
   (case r0 (w2, \<lparr>URL_Path = ''/x/1'', Body = NoBody\<rparr>) of
      Inl e \<Rightarrow> False
    | Inr (f0, s0) \<Rightarrow>
   (case r1 s0 of
      Inl e \<Rightarrow> False
    | Inr (f1, s1) \<Rightarrow>
   (case New [r1, r2] (fst (Recycle (Recycle s1)), \<lparr>URL_Path = ''/y/7'', Body = Stream 5\<rparr>) of
      Inl e \<Rightarrow> False
    | Inr (None, s2) \<Rightarrow> False
    | Inr (Some h, s2) \<Rightarrow>
        f0 = Some (Handle (HandlerFunc 0)) \<and> f1 = Some (Handle (HandlerFunc 1)) \<and>
        parameterized (snd (Recycle (Recycle s1))) = None \<and>
        idle (pools (fst (Recycle (Recycle s1))) 0) = [0] \<and>
        h = Handle (HandlerFunc 2) \<and>
        idle (pools (fst (ServeHTTP (\<lambda>f s. s) h s2)) 0) = [0] \<and>
        Body (snd (ServeHTTP (\<lambda>f s. s) h s2)) = Carrier 0 \<and>
        Pattern (ServeHTTP (\<lambda>f s. s) h s2) = ''/:a/:b'' \<and>
        idle (pools (fst (Recycle (ServeHTTP (\<lambda>f s. s) h s2))) 0) = [0, 0] \<and>
        Body (snd (Recycle (ServeHTTP (\<lambda>f s. s) h s2))) = NoBody))))))"
  by (simp add: Route_def normalize_path_def TrimLeft_def Trim_def Count_def Let_def
      init_world_def dynamic_route_def pool_Get_def pool_Put_def wrap_def reset_def
      Recycle_def parameterized_def Pattern_def caseSensitiveCompare_def scan_end_takeWhile)


subsection \<open>The composite dispatcher\<close>

lemma New_after_decline:
  "all_decline pre s s1 \<Longrightarrow> New (pre @ rest) s = New rest s1"
  by (induction rule: all_decline.induct) simp_all

lemma New_all_decline:
  "all_decline routes s s1 \<Longrightarrow> New routes s = Inr (None, s1)"
  using New_after_decline [of routes s s1 "[]"] by simp

text \<open>
  C10. When the routers registered before \<open>router\<close>, asked in order from the state
  \<open>s\<close>, all return nil and leave the state \<open>s1\<close>, and \<open>router\<close> returns a handler
  there, the dispatcher returns that handler and the state \<open>router\<close> left, and serving
  through the dispatcher serves that handler: the routers registered after it are not
  asked, whether they would match or not.
\<close>

theorem New_first_match_wins:
  assumes "all_decline pre s s1" and "router s1 = Inr (Some h, s2)"
  shows "New (pre @ router # post) s = Inr (Some h, s2)
       \<and> Router_ServeHTTP run (New (pre @ router # post)) s = Inr (ServeHTTP run h s2)"
  using assms by (simp add: New_after_decline Router_ServeHTTP_def)

text \<open>
  Conversely, a handler that the dispatcher returns is the one of the first router that
  does not return nil, and when the dispatcher returns nil every router has.
\<close>

lemma New_Some_is_first:
  "New routes s = Inr (Some h, s2) \<Longrightarrow>
     \<exists>pre router post s1. routes = pre @ router # post \<and> all_decline pre s s1 \<and>
        router s1 = Inr (Some h, s2)"
proof (induction routes arbitrary: s)
  case Nil
  then show ?case by simp
next
  case (Cons r routes)
  from Cons.prems obtain found s' where r: "r s = Inr (found, s')"
    by (auto split: sum.splits)
  show ?case
  proof (cases found)
    case None
    with Cons.prems r have "New routes s' = Inr (Some h, s2)" by simp
    from Cons.IH [OF this] obtain pre router post s1 where
      d: "routes = pre @ router # post" "all_decline pre s' s1" "router s1 = Inr (Some h, s2)"
      by blast
    from r None d(2) have "all_decline (r # pre) s s1"
      by (simp add: all_decline.more)
    with d(1,3) have "r # routes = (r # pre) @ router # post \<and> all_decline (r # pre) s s1
        \<and> router s1 = Inr (Some h, s2)"
      by simp
    then show ?thesis by blast
  next
    case (Some h')
    with Cons.prems r have "r s = Inr (Some h, s2)" by simp
    then have "r # routes = [] @ r # routes \<and> all_decline [] s s \<and> r s = Inr (Some h, s2)"
      by (simp add: all_decline.none)
    then show ?thesis by blast
  qed
qed

lemma New_None_all_decline:
  "New routes s = Inr (None, s1) \<Longrightarrow> all_decline routes s s1"
proof (induction routes arbitrary: s)
  case Nil
  then show ?case by (simp add: all_decline.none)
next
  case (Cons r routes)
  from Cons.prems obtain s' where "r s = Inr (None, s')" "New routes s' = Inr (None, s1)"
    by (auto split: sum.splits if_splits)
  with Cons.IH show ?case by (simp add: all_decline.more)
qed

lemma Route_a_c:
  "Route w ''/a/*c'' (IsFunc f) =
     Inr (dynamic_route [''/a'', ''/*c''] False (next_pool w) (Handle (HandlerFunc f)),
          w\<lparr>pools := (pools w)(next_pool w :=
               \<lparr>idle = [], New_num = 1, New_pattern = ''/a/*c''\<rparr>),
            next_pool := Suc (next_pool w)\<rparr>)"
  by (simp add: Route_def normalize_path_def TrimLeft_def Trim_def Count_def Let_def)

text \<open>
  C10 on three routes, \<^verbatim>\<open>/users\<close>, \<^verbatim>\<open>/a/:b\<close> and \<^verbatim>\<open>/a/*c\<close>, and the path
  \<^verbatim>\<open>/a/x\<close>: the first does not match, the second and the third both do, and the
  handler of the second is returned.
\<close>

theorem New_first_match_wins_witness:
  "\<exists>r0 r1 r2 w1 w2 w3 s1 s2.
     Route init_world ''/users'' (IsFunc 0) = Inr (r0, w1) \<and>
     Route w1 ''/a/:b'' (IsFunc 1) = Inr (r1, w2) \<and>
     Route w2 ''/a/*c'' (IsFunc 2) = Inr (r2, w3) \<and>
     all_decline [r0] (w3, \<lparr>URL_Path = ''/a/x'', Body = NoBody\<rparr>) s1 \<and>
     r1 s1 = Inr (Some (Handle (HandlerFunc 1)), s2) \<and>
     map_sum id fst (r2 s1) = Inr (Some (Handle (HandlerFunc 2))) \<and>
     New [r0, r1, r2] (w3, \<lparr>URL_Path = ''/a/x'', Body = NoBody\<rparr>)
       = Inr (Some (Handle (HandlerFunc 1)), s2)"
proof -
  let ?req = "\<lparr>URL_Path = ''/a/x'', Body = NoBody\<rparr>"
  have st: "IndexAny (normalize_path ''/users'') '':*'' = None"
    by (simp add: normalize_path_def TrimLeft_def)
  have n: "normalize_path ''/users'' = ''/users''"
    by (simp add: normalize_path_def TrimLeft_def)
  obtain r0 w1 where reg0: "Route init_world ''/users'' (IsFunc 0) = Inr (r0, w1)"
    and r0: "r0 = static_route ''/users'' (HandlerFunc 0) 0"
    and w1: "next_pool w1 = 0" "compareFunc w1 = caseSensitiveCompare" "pools w1 = pools init_world"
    using Route_static [OF st, of "IsFunc 0" "HandlerFunc 0" init_world]
    by (simp add: init_world_def n)
  obtain r1 w2 where reg1: "Route w1 ''/a/:b'' (IsFunc 1) = Inr (r1, w2)"
    and r1: "r1 = dynamic_route [''/a'', ''/:b''] False 0 (Handle (HandlerFunc 1))"
    and w2: "next_pool w2 = Suc 0" "compareFunc w2 = caseSensitiveCompare"
       "idle (pools w2 0) = []" "New_num (pools w2 0) = 1"
    using w1 by (simp add: Route_a_b init_world_def)
  obtain r2 w3 where reg2: "Route w2 ''/a/*c'' (IsFunc 2) = Inr (r2, w3)"
    and r2: "r2 = dynamic_route [''/a'', ''/*c''] False (Suc 0) (Handle (HandlerFunc 2))"
    and w3: "compareFunc w3 = caseSensitiveCompare"
       "idle (pools w3 0) = []" "New_num (pools w3 0) = 1"
       "idle (pools w3 (Suc 0)) = []" "New_num (pools w3 (Suc 0)) = 1"
    using w2 by (simp add: Route_a_c)
  have "r0 (w3, ?req) = Inr (None, (w3, ?req))"
    using w3 by (simp add: r0 static_route_def caseSensitiveCompare_def)
  then have pre: "all_decline [r0] (w3, ?req) (w3, ?req)"
    using all_decline.none by (rule all_decline.more)
  obtain s2 where m1: "r1 (w3, ?req) = Inr (Some (Handle (HandlerFunc 1)), s2)"
    using w3 by (simp add: r1 dynamic_route_def pool_Get_def wrap_def Let_def
        caseSensitiveCompare_def scan_end_takeWhile)
  have m2: "map_sum id fst (r2 (w3, ?req)) = Inr (Some (Handle (HandlerFunc 2)))"
    using w3 by (simp add: r2 dynamic_route_def pool_Get_def wrap_def Let_def
        caseSensitiveCompare_def)
  have "New ([r0] @ r1 # [r2]) (w3, ?req) = Inr (Some (Handle (HandlerFunc 1)), s2)"
    using New_first_match_wins [where router = r1 and post = "[r2]", OF pre m1]
    by (rule conjunct1)
  then have win: "New [r0, r1, r2] (w3, ?req) = Inr (Some (Handle (HandlerFunc 1)), s2)"
    by (simp only: append.simps)
  from reg0 reg1 reg2 pre m1 m2 win show ?thesis by blast
qed

subsection \<open>Pattern\<close>

lemma pool_Get_pattern:
  assumes "wf_world w"
  shows "pattern (heap (snd (pool_Get k w)) (fst (pool_Get k w))) = New_pattern (pools w k)"
  using assms
  by (auto simp add: wf_world_def pool_Get_def Let_def split: list.splits)

lemma normalize_path_fixed:
  "normalize_path path = path \<longleftrightarrow> (\<exists>rest. path = CHR ''/'' # rest \<and> take 1 rest \<noteq> ''/'')"
proof (cases path)
  case Nil
  then show ?thesis by (simp add: normalize_path_def TrimLeft_def)
next
  case (Cons c rest)
  show ?thesis
  proof (cases "c = CHR ''/''")
    case True
    have "dropWhile (\<lambda>x. x = CHR ''/'') rest = rest \<longleftrightarrow> take 1 rest \<noteq> ''/''"
    proof (cases rest)
      case Nil
      then show ?thesis by simp
    next
      case (Cons d list)
      have "length (dropWhile (\<lambda>x. x = CHR ''/'') list) \<le> length list"
        by (rule length_dropWhile_le)
      then have "dropWhile (\<lambda>x. x = CHR ''/'') list \<noteq> d # list"
        by (metis Suc_n_not_le_n length_Cons)
      with Cons show ?thesis by auto
    qed
    with Cons True show ?thesis
      by (simp add: normalize_path_def TrimLeft_def)
  next
    case False
    with Cons show ?thesis
      by (auto simp add: normalize_path_def TrimLeft_def)
  qed
qed

text \<open>
  C8, as stated, fails: the pattern \<^verbatim>\<open>blog/:id\<close> compiles, the path \<^verbatim>\<open>/blog/7\<close>
  matches it, and Pattern then returns \<^verbatim>\<open>/blog/:id\<close>, not the registration string.
\<close>

theorem Pattern_differs_from_registration_counterexample:
  "map_sum id (\<lambda>(found, s). (found, Pattern s))
     (Route_Match ''blog/:id'' (IsFunc 0) \<lparr>URL_Path = ''/blog/7'', Body = NoBody\<rparr>)
   = Inr (Some (Handle (HandlerFunc 0)), ''/blog/:id'')
   \<and> ''/blog/:id'' \<noteq> ''blog/:id''"
  by (simp add: Route_Match_def Route_def normalize_path_def TrimLeft_def Trim_def Count_def
      Let_def init_world_def dynamic_route_def pool_Get_def wrap_def Pattern_def
      parameterized_def caseSensitiveCompare_def scan_end_takeWhile)

text \<open>
  C8, amended. In a program that starts with nothing registered, for every pattern
  that Route compiles without a panic, at any later time and for every request the
  route matches, Pattern returns after the match the normalized registration string
  (one leading slash in place of the leading slashes); that is the registration string
  itself exactly when it starts with one slash and no more.
\<close>

theorem Pattern_is_normalized_path:
  assumes r0: "evolves init_world w0"
    and reg: "Route w0 path ha = Inr (rt, w1)"
    and later: "evolves w1 w"
    and m: "rt (w, req) = Inr (Some h, s)"
  shows "Pattern s = normalize_path path
       \<and> (Pattern s = path \<longleftrightarrow> (\<exists>rest. path = CHR ''/'' # rest \<and> take 1 rest \<noteq> ''/''))"
proof -
  from r0 have "wf_world w0" using wf_evolves wf_init_world by blast
  then have "wf_world w1" using reg by (rule wf_Route)
  with later have wf: "wf_world w" by (rule wf_evolves)
  from later have k: "keeps w1 w" by (rule keeps_evolves)
  have "Pattern s = normalize_path path"
    using reg
  proof (cases rule: Route_cases)
    case (static h0)
    with m have s: "s = wrap (next_addr w0) (w, req)"
      using static_route_Some by blast
    from static(4) have "next_addr w0 < next_addr w1"
      "pattern (heap w1 (next_addr w0)) = normalize_path path"
      by simp_all
    with k have "pattern (heap w (next_addr w0)) = normalize_path path"
      by (simp add: keeps_def)
    then show ?thesis
      by (simp add: s Pattern_def wrap_def parameterized_def)
  next
    case (dynamic h0 segs)
    let ?k = "next_pool w0"
    from dynamic(6) have "?k < next_pool w1"
      "New_pattern (pools w1 ?k) = normalize_path path"
      by simp_all
    with k have np: "New_pattern (pools w ?k) = normalize_path path"
      by (simp add: keeps_def)
    obtain a w' where g: "pool_Get ?k w = (a, w')" by (cases "pool_Get ?k w")
    with pool_Get_pattern [OF wf, of ?k] np
    have pa: "pattern (heap w' a) = normalize_path path" by simp
    from m dynamic(5) g pa show ?thesis
      by (auto simp add: dynamic_route_def Let_def Pattern_def wrap_def parameterized_def
          split: sum.splits if_splits)
  qed
  then show ?thesis
    using normalize_path_fixed [of path] by simp
qed

lemma Route_blog_id:
  "Route w ''blog/:id'' (IsFunc f) =
     Inr (dynamic_route [''/blog'', ''/:id''] False (next_pool w) (Handle (HandlerFunc f)),
          w\<lparr>pools := (pools w)(next_pool w :=
               \<lparr>idle = [], New_num = 1, New_pattern = ''/blog/:id''\<rparr>),
            next_pool := Suc (next_pool w)\<rparr>)"
  by (simp add: Route_def normalize_path_def TrimLeft_def Trim_def Count_def Let_def)

text \<open>
  The amended C8 on the pattern \<^verbatim>\<open>blog/:id\<close>, after a first request was matched and
  recycled, so that the second match draws the carrier from the pool.
\<close>

theorem Pattern_is_normalized_path_witness:
  "\<exists>rt w1 w2 req2 w req' s.
     evolves init_world init_world \<and>
     Route init_world ''blog/:id'' (IsFunc 0) = Inr (rt, w1) \<and>
     rt (w1, \<lparr>URL_Path = ''/blog/1'', Body = NoBody\<rparr>)
       = Inr (Some (Handle (HandlerFunc 0)), w2, req2) \<and>
     Recycle (w2, req2) = (w, req') \<and>
     idle (pools w 0) = [0] \<and>
     evolves w1 w \<and>
     rt (w, \<lparr>URL_Path = ''/blog/7'', Body = Stream 3\<rparr>)
       = Inr (Some (Handle (HandlerFunc 0)), s) \<and>
     Body (snd s) = Carrier 0 \<and>
     Pattern s = normalize_path ''blog/:id'' \<and>
     normalize_path ''blog/:id'' = ''/blog/:id'' \<and>
     Pattern s \<noteq> ''blog/:id''"
proof -
  let ?rt = "dynamic_route [''/blog'', ''/:id''] False 0 (Handle (HandlerFunc 0))"
  let ?w1 = "init_world\<lparr>pools := (pools init_world)(0 :=
               \<lparr>idle = [], New_num = 1, New_pattern = ''/blog/:id''\<rparr>),
            next_pool := Suc 0\<rparr>"
  have reg: "Route init_world ''blog/:id'' (IsFunc 0) = Inr (?rt, ?w1)"
    by (simp add: Route_blog_id init_world_def)
  obtain w2 req2 where
    m1: "?rt (?w1, \<lparr>URL_Path = ''/blog/1'', Body = NoBody\<rparr>)
           = Inr (Some (Handle (HandlerFunc 0)), w2, req2)"
    and w2: "idle (pools w2 0) = []" "New_num (pools w2 0) = 1"
      "heap w2 0 = \<lparr>ReadCloser = NoBody, params = [(''id'', ''1'')], params_cap = 1,
                     pattern = ''/blog/:id'', pool = Some 0\<rparr>"
      "Body req2 = Carrier 0" "compareFunc w2 = caseSensitiveCompare"
    by (simp add: init_world_def dynamic_route_def pool_Get_def wrap_def
        caseSensitiveCompare_def scan_end_takeWhile)
  obtain w req' where rc: "Recycle (w2, req2) = (w, req')"
    by (cases "Recycle (w2, req2)")
  with w2 have w: "idle (pools w 0) = [0]" "params (heap w 0) = []"
    "params_cap (heap w 0) = 1" "compareFunc w = caseSensitiveCompare"
    by (auto simp add: Recycle_def parameterized_def reset_def pool_Put_def Let_def)
  have e1: "evolves ?w1 w2"
    by (rule evolves.dynamic_matched [OF evolves.start _ m1]) simp
  then have e: "evolves ?w1 w"
    using rc by (rule evolves.recycled)
  obtain s where m: "?rt (w, \<lparr>URL_Path = ''/blog/7'', Body = Stream 3\<rparr>)
        = Inr (Some (Handle (HandlerFunc 0)), s)"
    and b: "Body (snd s) = Carrier 0"
    using w by (simp add: dynamic_route_def pool_Get_def wrap_def Let_def
        caseSensitiveCompare_def scan_end_takeWhile)
  have n: "normalize_path ''blog/:id'' = ''/blog/:id''"
    by (simp add: normalize_path_def TrimLeft_def)
  note inst = Pattern_is_normalized_path [OF evolves.start reg e m]
  then have p: "Pattern s = normalize_path ''blog/:id''" by blast
  with n have d: "Pattern s \<noteq> ''blog/:id''" by simp
  from reg m1 rc w(1) e m b p n d evolves.start [of init_world]
  show ?thesis by blast
qed

subsection \<open>The pool of a dynamic route\<close>

lemma pool_Get_owned:
  assumes "\<forall>a \<in> set (idle (pools w k)). pool (heap w a) = Some k"
    and "pool_Get k w = (a, w1)"
  shows "pool (heap w1 a) = Some k"
    and "\<forall>b \<in> set (idle (pools w1 k)). pool (heap w1 b) = Some k"
    and "length (idle (pools w k)) \<le> Suc (length (idle (pools w1 k)))"
  using assms by (auto simp add: pool_Get_def Let_def split: list.splits)

lemma reset_owned:
  assumes "pool (heap w a) = Some k"
    and "\<forall>b \<in> set (idle (pools w k)). pool (heap w b) = Some k"
  shows "idle (pools (fst (reset a (w, req))) k) = a # idle (pools w k)"
    and "\<forall>b \<in> set (idle (pools (fst (reset a (w, req))) k)).
           pool (heap (fst (reset a (w, req))) b) = Some k"
  using assms by (auto simp add: reset_def pool_Put_def Let_def)

lemma failed_dynamic_route_pool:
  assumes own: "\<forall>a \<in> set (idle (pools w k)). pool (heap w a) = Some k"
    and m: "dynamic_route segs ts k h (w, req) = Inr (None, s')"
  shows "idle (pools (fst s') k) = fst (pool_Get k w) # idle (pools (snd (pool_Get k w)) k)"
    and "\<forall>b \<in> set (idle (pools (fst s') k)). pool (heap (fst s') b) = Some k"
proof -
  obtain a w1 where g: "pool_Get k w = (a, w1)" by (cases "pool_Get k w")
  note o = pool_Get_owned [OF own g]
  from dynamic_route_result [OF m g] obtain ps' where
    r: "s' = reset a (w1\<lparr>heap := (heap w1)(a := (heap w1 a)\<lparr>params := ps'\<rparr>)\<rparr>, req)"
    by auto
  let ?w2 = "w1\<lparr>heap := (heap w1)(a := (heap w1 a)\<lparr>params := ps'\<rparr>)\<rparr>"
  have a2: "pool (heap ?w2 a) = Some k" using o(1) by simp
  have o2: "\<forall>b \<in> set (idle (pools ?w2 k)). pool (heap ?w2 b) = Some k"
    using o(2) by simp
  show "idle (pools (fst s') k) = fst (pool_Get k w) # idle (pools (snd (pool_Get k w)) k)"
    using reset_owned(1) [OF a2 o2, of req] g by (simp add: r)
  show "\<forall>b \<in> set (idle (pools (fst s') k)). pool (heap (fst s') b) = Some k"
    using reset_owned(2) [OF a2 o2, of req] by (simp only: r)
qed

lemma matched_dynamic_route_Recycle_pool:
  assumes own: "\<forall>a \<in> set (idle (pools w k)). pool (heap w a) = Some k"
    and m: "dynamic_route segs ts k h (w, req) = Inr (Some h', s')"
  shows "idle (pools (fst (Recycle s')) k)
          = fst (pool_Get k w) # idle (pools (snd (pool_Get k w)) k)"
    and "\<forall>b \<in> set (idle (pools (fst (Recycle s')) k)).
           pool (heap (fst (Recycle s')) b) = Some k"
proof -
  obtain a w1 where g: "pool_Get k w = (a, w1)" by (cases "pool_Get k w")
  note o = pool_Get_owned [OF own g]
  from dynamic_route_result [OF m g] obtain ps' where
    r: "s' = wrap a (w1\<lparr>heap := (heap w1)(a := (heap w1 a)\<lparr>params := ps'\<rparr>)\<rparr>, req)"
    by auto
  let ?w3 = "w1\<lparr>heap := (heap w1)(a :=
      (heap w1 a)\<lparr>params := ps', ReadCloser := Body req\<rparr>)\<rparr>"
  let ?r3 = "req\<lparr>Body := Carrier a\<rparr>"
  from r have s': "s' = (?w3, ?r3)"
    by (simp add: wrap_def)
  have a3: "pool (heap ?w3 a) = Some k" using o(1) by simp
  have o3: "\<forall>b \<in> set (idle (pools ?w3 k)). pool (heap ?w3 b) = Some k"
    using o(2) by simp
  have rc: "Recycle s' = reset a (?w3, ?r3)"
    by (simp add: s' Recycle_def parameterized_def)
  show "idle (pools (fst (Recycle s')) k)
          = fst (pool_Get k w) # idle (pools (snd (pool_Get k w)) k)"
    using reset_owned(1) [OF a3 o3, of ?r3] g by (simp add: rc)
  show "\<forall>b \<in> set (idle (pools (fst (Recycle s')) k)).
           pool (heap (fst (Recycle s')) b) = Some k"
    using reset_owned(2) [OF a3 o3, of ?r3] by (simp only: rc)
qed

lemma attempt_pool:
  assumes own: "\<forall>a \<in> set (idle (pools w k)). pool (heap w a) = Some k"
    and quiet: "\<forall>f s. run f s = s"
    and at: "attempt run (dynamic_route segs ts k (Handle (HandlerFunc f))) w x = Inr w'"
  shows "idle (pools w' k) = fst (pool_Get k w) # idle (pools (snd (pool_Get k w)) k)
       \<and> (\<forall>b \<in> set (idle (pools w' k)). pool (heap w' b) = Some k)"
proof -
  obtain req todo where x: "x = (req, todo)" by (cases x)
  from at x obtain found s' where
    m: "dynamic_route segs ts k (Handle (HandlerFunc f)) (w, req) = Inr (found, s')"
    by (auto simp add: attempt_def split: sum.splits)
  show ?thesis
  proof (cases found)
    case None
    with at x m have "w' = fst s'"
      by (cases s') (simp add: attempt_def)
    with failed_dynamic_route_pool [OF own, of segs ts "Handle (HandlerFunc f)" req s']
      m None show ?thesis by simp
  next
    case (Some h')
    with m have h': "h' = Handle (HandlerFunc f)"
      by (cases s') (auto dest: dynamic_route_Some)
    have "ServeHTTP run h' s' = Recycle s'"
      by (simp only: h' ServeHTTP_quiet [OF quiet])
    with at x m Some have "w' = fst (Recycle s')"
      by (cases todo) (simp_all add: attempt_def)
    with matched_dynamic_route_Recycle_pool [OF own, of segs ts "Handle (HandlerFunc f)" req h' s']
      m Some show ?thesis by simp
  qed
qed

lemma attempts_pool:
  assumes quiet: "\<forall>f s. run f s = s"
  shows "\<forall>a \<in> set (idle (pools w k)). pool (heap w a) = Some k \<Longrightarrow>
     attempts run (dynamic_route segs ts k (Handle (HandlerFunc f))) w xs = Inr w' \<Longrightarrow>
     length (idle (pools w k)) \<le> length (idle (pools w' k))"
proof (induction xs arbitrary: w)
  case Nil
  then show ?case by simp
next
  case (Cons x xs)
  from Cons.prems(2) obtain w1 where
    at: "attempt run (dynamic_route segs ts k (Handle (HandlerFunc f))) w x = Inr w1"
    and rest: "attempts run (dynamic_route segs ts k (Handle (HandlerFunc f))) w1 xs = Inr w'"
    by (auto split: sum.splits)
  from attempt_pool [OF Cons.prems(1) quiet at]
  have i: "idle (pools w1 k) = fst (pool_Get k w) # idle (pools (snd (pool_Get k w)) k)"
    and o: "\<forall>b \<in> set (idle (pools w1 k)). pool (heap w1 b) = Some k"
    by simp_all
  have "length (idle (pools w k)) \<le> Suc (length (idle (pools (snd (pool_Get k w)) k)))"
    using pool_Get_owned(3) [OF Cons.prems(1), of "fst (pool_Get k w)" "snd (pool_Get k w)"]
    by simp
  with i have "length (idle (pools w k)) \<le> length (idle (pools w1 k))" by simp
  also have "\<dots> \<le> length (idle (pools w' k))"
    using Cons.IH [OF o rest] .
  finally show ?case .
qed

text \<open>
  In a program that starts with nothing registered, take a dynamic route that
  Route returned, its pool (the one Route created for it, \<open>next_pool w0\<close>) and any
  later store. When a Match of the route fails, the carrier
  that Get drew is, when Match returns, back on top of what Get left in the route's own
  pool, so the pool is no smaller than before. And across any sequence of match
  attempts on the route in which every matched handler is served or Recycle is called
  (the application's handlers leaving the store and the request as they are), the
  pool never ends smaller than it began.
\<close>

lemma failed_match_returns_carrier:
  assumes r0: "evolves init_world w0"
    and reg: "Route w0 path ha = Inr (rt, w1)"
    and dyn: "IndexAny (normalize_path path) '':*'' \<noteq> None"
    and later: "evolves w1 w"
  shows "(rt (w, req) = Inr (None, w', req') \<longrightarrow>
            idle (pools w' (next_pool w0))
              = fst (pool_Get (next_pool w0) w)
                # idle (pools (snd (pool_Get (next_pool w0) w)) (next_pool w0))
            \<and> length (idle (pools w (next_pool w0))) \<le> length (idle (pools w' (next_pool w0))))
       \<and> ((\<forall>f s. run f s = s) \<and> attempts run rt w xs = Inr w''
            \<longrightarrow> length (idle (pools w (next_pool w0))) \<le> length (idle (pools w'' (next_pool w0))))"
proof -
  let ?k = "next_pool w0"
  from r0 have "wf_world w0" using wf_evolves wf_init_world by blast
  then have "wf_world w1" using reg by (rule wf_Route)
  with later have "wf_world w" by (rule wf_evolves)
  then have own: "\<forall>a \<in> set (idle (pools w ?k)). pool (heap w a) = Some ?k"
    by (simp add: wf_world_def)
  from reg dyn obtain segs ts f where
    rt: "rt = dynamic_route segs ts ?k (Handle (HandlerFunc f))"
  proof (cases rule: Route_cases)
    case (static h)
    with dyn show ?thesis by simp
  next
    case (dynamic h segs)
    from dynamic(1) obtain f where "h = HandlerFunc f" by (cases ha) auto
    with dynamic(5) that show ?thesis by blast
  qed
  have drawn: "length (idle (pools w ?k)) \<le> Suc (length (idle (pools (snd (pool_Get ?k w)) ?k)))"
    using pool_Get_owned(3) [OF own, of "fst (pool_Get ?k w)" "snd (pool_Get ?k w)"] by simp
  have failed: "idle (pools w' ?k)
              = fst (pool_Get ?k w) # idle (pools (snd (pool_Get ?k w)) ?k)
            \<and> length (idle (pools w ?k)) \<le> length (idle (pools w' ?k))"
    if "rt (w, req) = Inr (None, w', req')"
  proof -
    from that failed_dynamic_route_pool(1) [OF own, of segs ts "Handle (HandlerFunc f)" req "(w', req')"]
    have "idle (pools w' ?k) = fst (pool_Get ?k w) # idle (pools (snd (pool_Get ?k w)) ?k)"
      by (simp add: rt)
    with drawn show ?thesis by simp
  qed
  have sequence: "length (idle (pools w ?k)) \<le> length (idle (pools w'' ?k))"
    if "\<forall>f s. run f s = s" "attempts run rt w xs = Inr w''"
    using attempts_pool [OF that(1) own, of segs ts f xs w''] that(2) by (simp add: rt)
  from failed sequence show ?thesis by blast
qed

text \<open>
  The same on the route \<^verbatim>\<open>/a/:b\<close>: a failed match of \<^verbatim>\<open>/x\<close>, and the sequence of
  a match that is served, a failed match and a match that is recycled.
\<close>

lemma failed_match_returns_carrier_example:
  "\<exists>rt w1 w' req' w''.
     evolves init_world init_world \<and>
     Route init_world ''/a/:b'' (IsFunc 0) = Inr (rt, w1) \<and>
     IndexAny (normalize_path ''/a/:b'') '':*'' \<noteq> None \<and>
     evolves w1 w1 \<and>
     rt (w1, \<lparr>URL_Path = ''/x'', Body = NoBody\<rparr>) = Inr (None, w', req') \<and>
     idle (pools w1 0) = [] \<and> idle (pools w' 0) = [0] \<and>
     attempts (\<lambda>f s. s) rt w1
       [(\<lparr>URL_Path = ''/a/x'', Body = NoBody\<rparr>, Serve),
        (\<lparr>URL_Path = ''/x'', Body = NoBody\<rparr>, Serve),
        (\<lparr>URL_Path = ''/a/y'', Body = NoBody\<rparr>, CallRecycle)] = Inr w'' \<and>
     idle (pools w'' 0) = [0] \<and>
     length (idle (pools w1 (next_pool init_world))) \<le> length (idle (pools w' (next_pool init_world))) \<and>
     length (idle (pools w1 (next_pool init_world))) \<le> length (idle (pools w'' (next_pool init_world)))"
proof -
  let ?rt = "dynamic_route [''/a'', ''/:b''] False 0 (Handle (HandlerFunc 0))"
  let ?w1 = "init_world\<lparr>pools := (pools init_world)(0 :=
               \<lparr>idle = [], New_num = 1, New_pattern = ''/a/:b''\<rparr>),
            next_pool := Suc 0\<rparr>"
  let ?xs = "[(\<lparr>URL_Path = ''/a/x'', Body = NoBody\<rparr>, Serve),
        (\<lparr>URL_Path = ''/x'', Body = NoBody\<rparr>, Serve),
        (\<lparr>URL_Path = ''/a/y'', Body = NoBody\<rparr>, CallRecycle)]"
  have reg: "Route init_world ''/a/:b'' (IsFunc 0) = Inr (?rt, ?w1)"
    by (simp add: Route_a_b init_world_def)
  have dyn: "IndexAny (normalize_path ''/a/:b'') '':*'' \<noteq> None"
    by (simp add: normalize_path_def TrimLeft_def)
  have i1: "idle (pools ?w1 0) = []" by simp
  obtain w' req' where m: "?rt (?w1, \<lparr>URL_Path = ''/x'', Body = NoBody\<rparr>) = Inr (None, w', req')"
    and i': "idle (pools w' 0) = [0]"
    by (simp add: init_world_def dynamic_route_def pool_Get_def reset_def pool_Put_def
        caseSensitiveCompare_def)
  obtain w'' where a: "attempts (\<lambda>f s. s) ?rt ?w1 ?xs = Inr w''"
    and i'': "idle (pools w'' 0) = [0]"
    by (simp add: attempt_def init_world_def dynamic_route_def pool_Get_def reset_def
        pool_Put_def wrap_def Recycle_def parameterized_def caseSensitiveCompare_def
        scan_end_takeWhile)
  note inst = failed_match_returns_carrier [OF evolves.start reg dyn evolves.start,
      of "\<lparr>URL_Path = ''/x'', Body = NoBody\<rparr>" w' req' "\<lambda>f s. s" ?xs w'']
  have l1: "length (idle (pools ?w1 (next_pool init_world)))
      \<le> length (idle (pools w' (next_pool init_world)))"
    using inst m by blast
  have l2: "length (idle (pools ?w1 (next_pool init_world)))
      \<le> length (idle (pools w'' (next_pool init_world)))"
    using inst a by blast
  from reg dyn m a i1 i' i'' l1 l2 evolves.start [of init_world] evolves.start [of ?w1]
  show ?thesis by blast
qed

text \<open>
  C6 (the code departs from the claim and from the comment of Match in Router, by
  which a matched route with parameters is served "in order to release allocated
  parameters back to the pool"). The route \<^verbatim>\<open>/a/:b\<close> first fails to match \<^verbatim>\<open>/x\<close>,
  which leaves carrier 0 in its pool. It then matches a request for \<^verbatim>\<open>/a/x\<close>, Get
  drawing carrier 0, and the returned handler is served; the application's handler
  replaces the request's Body with a stream of its own. After it the closure of Route
  looks for the carrier in the request's Body, finds none and calls neither reset nor
  Put: the match was served and the pool, which held one carrier, is empty.
\<close>

theorem served_match_leaks_carrier:
  "(case Route init_world ''/a/:b'' (IsFunc 0) of
      Inl e \<Rightarrow> False
    | Inr (rt, w1) \<Rightarrow>
        (case rt (w1, \<lparr>URL_Path = ''/x'', Body = NoBody\<rparr>) of
           Inl e \<Rightarrow> False
         | Inr (found1, w2, req1) \<Rightarrow>
             (case rt (w2, \<lparr>URL_Path = ''/a/x'', Body = Stream 7\<rparr>) of
                Inl e \<Rightarrow> False
              | Inr (found2, s2) \<Rightarrow>
                  found1 = None \<and> idle (pools w2 0) = [0] \<and>
                  found2 = Some (Handle (HandlerFunc 0)) \<and>
                  Body (snd s2) = Carrier 0 \<and>
                  idle (pools (fst (ServeHTTP (\<lambda>f s. (fst s, (snd s)\<lparr>Body := Stream 9\<rparr>))
                                     (Handle (HandlerFunc 0)) s2)) 0) = [] \<and>
                  attempts (\<lambda>f s. (fst s, (snd s)\<lparr>Body := Stream 9\<rparr>)) rt w2
                     [(\<lparr>URL_Path = ''/a/x'', Body = Stream 7\<rparr>, Serve)]
                   = Inr (fst (ServeHTTP (\<lambda>f s. (fst s, (snd s)\<lparr>Body := Stream 9\<rparr>))
                                     (Handle (HandlerFunc 0)) s2)))))"
  by (simp add: Route_a_b init_world_def dynamic_route_def pool_Get_def pool_Put_def
      wrap_def reset_def parameterized_def caseSensitiveCompare_def scan_end_takeWhile
      attempt_def)

end
